theory Spec2Isabelle
  imports Main "HOL-Library.Word"
begin

section \<open>tiny-json: an in-place JSON parser over a caller-supplied node pool\<close>

text \<open>
  The development embeds \<^verbatim>\<open>tiny-json.c\<close> (the build without \<^verbatim>\<open>TINY_JSON_USE_WCHAR\<close>, so
  \<^verbatim>\<open>CHAR_T\<close> is \<^verbatim>\<open>char\<close> and \<^verbatim>\<open>T(x)\<close> is \<^verbatim>\<open>x\<close>).

  \<^item> The text buffer is a \<open>char list\<close>; a \<^verbatim>\<open>CHAR_T*\<close> into it is an index, or \<open>NULL\<close>.
  \<^item> The node array \<^verbatim>\<open>mem[]\<close> is a \<open>json_t list\<close>; a \<^verbatim>\<open>json_t*\<close> is an index into it, or \<open>NULL\<close>.
  \<^item> Every access through a pointer is checked: an index outside the buffer or outside the
    node array, and a dereferenced null pointer, are undefined behaviour in C and are the
    \<open>Inl\<close> results of the model. A function of the source that returns a null pointer returns
    \<open>NULL\<close> here, inside \<open>Inr\<close>, together with the memory as it left it.
\<close>

subsection \<open>Data model\<close>

datatype ptr = NULL | Ptr nat

datatype fault = BufferOverrun | PoolOverrun | NullDeref

text \<open>
  Modelled from the spec: the header \<^verbatim>\<open>tiny-json.h\<close> is not among the sources. It declares the
  enumeration \<^verbatim>\<open>jsonType_t\<close>, the node \<^verbatim>\<open>json_t\<close> and the inline accessors \<^verbatim>\<open>json_getType\<close>
  and \<^verbatim>\<open>json_getValue\<close>. The spec (section 3) lists the type tags and the fields; the field
  paths \<^verbatim>\<open>u.value\<close>, \<^verbatim>\<open>u.c.child\<close> and \<^verbatim>\<open>u.c.last_child\<close> are the ones the source file uses.
\<close>

datatype jsonType_t =
  JSON_OBJ | JSON_ARRAY | JSON_TEXT | JSON_BOOLEAN | JSON_INTEGER | JSON_REAL | JSON_NULL

text \<open>
  Modelled from the spec: the numeric value of each enumerator of \<^verbatim>\<open>jsonType_t\<close>. The source
  compares \<^verbatim>\<open>JSON_ARRAY >= type\<close> and the spec (section 4.5) says that this test rejects
  exactly Object and Array, so these two come first.
\<close>

fun jsonType_rank :: "jsonType_t \<Rightarrow> nat" where
  "jsonType_rank JSON_OBJ = 0"
| "jsonType_rank JSON_ARRAY = 1"
| "jsonType_rank JSON_TEXT = 2"
| "jsonType_rank JSON_BOOLEAN = 3"
| "jsonType_rank JSON_INTEGER = 4"
| "jsonType_rank JSON_REAL = 5"
| "jsonType_rank JSON_NULL = 6"

text \<open>
  The members of the union \<^verbatim>\<open>u\<close> are separate fields: \<open>u_value\<close> is \<^verbatim>\<open>u.value\<close> (a pointer
  into the buffer), \<open>u_c_child\<close> and \<open>u_c_last_child\<close> are \<^verbatim>\<open>u.c.child\<close> and
  \<^verbatim>\<open>u.c.last_child\<close> (pointers into the node array). The source never reads a member of the
  union other than the one it wrote last.
\<close>

record json_t =
  sibling :: ptr
  name :: ptr
  u_value :: ptr
  u_c_child :: ptr
  u_c_last_child :: ptr
  type :: jsonType_t

text \<open>
  The memory the parser works on: the text buffer, and the fields of \<^verbatim>\<open>jsonStaticPool_t\<close>
  (\<^verbatim>\<open>nextFree\<close> and \<^verbatim>\<open>qty\<close> are \<^verbatim>\<open>unsigned int\<close>).
\<close>

record state =
  buf :: string
  mem :: "json_t list"
  qty :: "32 word"
  nextFree :: "32 word"

abbreviation NUL :: char where
  "NUL \<equiv> CHR 0x00"

abbreviation DQUOTE :: char where
  "DQUOTE \<equiv> CHR 0x22"

abbreviation BACKSLASH :: char where
  "BACKSLASH \<equiv> CHR 0x5C"

text \<open>The array that holds a C string literal: its characters and the terminating NUL.\<close>

definition c_str :: "string \<Rightarrow> string" where
  "c_str s = s @ [NUL]"

subsection \<open>Checked memory access\<close>

definition thenDo :: "fault + 'a \<Rightarrow> ('a \<Rightarrow> fault + 'b) \<Rightarrow> fault + 'b" where
  "thenDo m f = (case m of Inl e \<Rightarrow> Inl e | Inr x \<Rightarrow> f x)"

text \<open>\<^verbatim>\<open>*p\<close> and \<^verbatim>\<open>*p = c\<close> on the text buffer \<open>b\<close>.\<close>

definition rd :: "string \<Rightarrow> nat \<Rightarrow> fault + char" where
  "rd b p = (if p < length b then Inr (b ! p) else Inl BufferOverrun)"

definition wr :: "nat \<Rightarrow> char \<Rightarrow> string \<Rightarrow> fault + string" where
  "wr p c b = (if p < length b then Inr (b[p := c]) else Inl BufferOverrun)"

text \<open>Reading a node, and assigning to fields of a node, through a \<^verbatim>\<open>json_t*\<close>.\<close>

definition getNode :: "state \<Rightarrow> nat \<Rightarrow> fault + json_t" where
  "getNode st i = (if i < length (mem st) then Inr (mem st ! i) else Inl PoolOverrun)"

definition modNode :: "nat \<Rightarrow> (json_t \<Rightarrow> json_t) \<Rightarrow> state \<Rightarrow> fault + state" where
  "modNode i f st =
     (if i < length (mem st) then Inr (st\<lparr>mem := (mem st)[i := f (mem st ! i)]\<rparr>)
      else Inl PoolOverrun)"

text \<open>
  The functions of the source that touch only the text are functions of the buffer alone;
  \<open>onBuf\<close> runs one of them on the buffer of a state.
\<close>

definition onBuf :: "(string \<Rightarrow> fault + ('a \<times> string)) \<Rightarrow> state \<Rightarrow> fault + ('a \<times> state)" where
  "onBuf f st = thenDo (f (buf st)) (\<lambda>(r, b'). Inr (r, st\<lparr>buf := b'\<rparr>))"

definition wrBuf :: "nat \<Rightarrow> char \<Rightarrow> state \<Rightarrow> fault + state" where
  "wrBuf p c st = thenDo (wr p c (buf st)) (\<lambda>b'. Inr (st\<lparr>buf := b'\<rparr>))"

subsection \<open>Character classes\<close>

text \<open>\<^verbatim>\<open>isdigit\<close> and \<^verbatim>\<open>isxdigit\<close> of the C library, in the C locale.\<close>

definition isdigit :: "char \<Rightarrow> bool" where
  "isdigit c = (c \<in> set ''0123456789'')"

definition isxdigit :: "char \<Rightarrow> bool" where
  "isxdigit c = (c \<in> set ''0123456789abcdefABCDEF'')"

text \<open>
  \<^verbatim>\<open>isOneOfThem\<close>: the set is a C string literal, given here without its terminating NUL; the
  loop of the source stops at that NUL before comparing it, so NUL is never a member.
\<close>

primrec isOneOfThem :: "char \<Rightarrow> string \<Rightarrow> bool" where
  "isOneOfThem ch [] = False"
| "isOneOfThem ch (c # cs) = (if ch = c then True else isOneOfThem ch cs)"

text \<open>\<^verbatim>\<open>blank\<close> is \<^verbatim>\<open>" \n\r\t\f"\<close> and \<^verbatim>\<open>endofblock\<close> is \<^verbatim>\<open>"}]"\<close>.\<close>

definition blank :: string where
  "blank = [CHR '' '', CHR 0x0A, CHR 0x0D, CHR 0x09, CHR 0x0C]"

definition endofblock :: string where
  "endofblock = ''}]''"

definition isEndOfPrimitive :: "char \<Rightarrow> bool" where
  "isEndOfPrimitive ch = (ch = CHR '','' \<or> isOneOfThem ch blank \<or> isOneOfThem ch endofblock)"

subsection \<open>The pool\<close>

definition poolInit :: "state \<Rightarrow> ptr \<times> state" where
  "poolInit st = (Ptr 0, st\<lparr>nextFree := 1\<rparr>)"

definition poolAlloc :: "state \<Rightarrow> ptr \<times> state" where
  "poolAlloc st =
     (if nextFree st \<ge> qty st then (NULL, st)
      else (Ptr (unat (nextFree st)), st\<lparr>nextFree := nextFree st + 1\<rparr>))"

subsection \<open>Lexical scanners\<close>

function goWhile :: "nat \<Rightarrow> string \<Rightarrow> string \<Rightarrow> fault + ptr" where
  "goWhile str chset b =
     (case rd b str of
        Inl e \<Rightarrow> Inl e
      | Inr c \<Rightarrow>
          if c \<noteq> NUL then
            (if \<not> isOneOfThem c chset then Inr (Ptr str) else goWhile (str + 1) chset b)
          else Inr NULL)"
  by pat_completeness auto
termination
  by (relation "measure (\<lambda>(str, chset, b). length b - str)")
     (auto simp: rd_def split: if_splits)

declare goWhile.simps [simp del]

definition goBlank :: "nat \<Rightarrow> string \<Rightarrow> fault + ptr" where
  "goBlank str b = goWhile str blank b"

function goNum :: "nat \<Rightarrow> string \<Rightarrow> fault + ptr" where
  "goNum str b =
     (case rd b str of
        Inl e \<Rightarrow> Inl e
      | Inr c \<Rightarrow>
          if c \<noteq> NUL then
            (if \<not> isdigit c then Inr (Ptr str) else goNum (str + 1) b)
          else Inr NULL)"
  by pat_completeness auto
termination
  by (relation "measure (\<lambda>(str, b). length b - str)")
     (auto simp: rd_def split: if_splits)

declare goNum.simps [simp del]

definition setToNull :: "nat \<Rightarrow> string \<Rightarrow> fault + (ptr \<times> string)" where
  "setToNull ch b =
     thenDo (rd b ch) (\<lambda>c.
       if \<not> isOneOfThem c endofblock
       then thenDo (wr ch NUL b) (\<lambda>b'. Inr (Ptr (ch + 1), b'))
       else Inr (Ptr ch, b))"

text \<open>\<^verbatim>\<open>checkStr\<close>: the second argument is a C string literal, given without its NUL.\<close>

fun checkStr :: "nat \<Rightarrow> string \<Rightarrow> string \<Rightarrow> fault + ptr" where
  "checkStr ptr [] b = Inr (Ptr ptr)"
| "checkStr ptr (s # str) b =
     (case rd b ptr of
        Inl e \<Rightarrow> Inl e
      | Inr c \<Rightarrow> if c \<noteq> s then Inr NULL else checkStr (ptr + 1) str b)"

subsection \<open>String unescaper\<close>

definition pair :: "(char \<times> char) list" where
  "pair =
     [(DQUOTE, DQUOTE), (BACKSLASH, BACKSLASH),
      (CHR ''/'', CHR ''/''), (CHR ''b'', CHR 0x08),
      (CHR ''f'', CHR 0x0C), (CHR ''n'', CHR 0x0A),
      (CHR ''r'', CHR 0x0D), (CHR ''t'', CHR 0x09)]"

primrec getEscape_from :: "(char \<times> char) list \<Rightarrow> char \<Rightarrow> char" where
  "getEscape_from [] ch = NUL"
| "getEscape_from (p # ps) ch = (if fst p = ch then snd p else getEscape_from ps ch)"

definition getEscape :: "char \<Rightarrow> char" where
  "getEscape ch = getEscape_from pair ch"

function getCharFromUnicode_from :: "nat \<Rightarrow> nat \<Rightarrow> string \<Rightarrow> fault + char" where
  "getCharFromUnicode_from i str b =
     (if i < 4 then
        (case rd b (str + i) of
           Inl e \<Rightarrow> Inl e
         | Inr c \<Rightarrow> if \<not> isxdigit c then Inr NUL else getCharFromUnicode_from (i + 1) str b)
      else Inr (CHR ''?''))"
  by pat_completeness auto
termination
  by (relation "measure (\<lambda>(i, str, b). 4 - i)") auto

declare getCharFromUnicode_from.simps [simp del]

definition getCharFromUnicode :: "nat \<Rightarrow> string \<Rightarrow> fault + char" where
  "getCharFromUnicode str b = getCharFromUnicode_from 0 str b"

text \<open>
  One pass through the body of the loop of \<^verbatim>\<open>parseString\<close>, with its two cursors \<^verbatim>\<open>head\<close>
  and \<^verbatim>\<open>tail\<close>: it returns from the function, or goes round again; \<open>PNext\<close> carries the
  cursors after the loop's \<^verbatim>\<open>++head, ++tail\<close>.
\<close>

datatype pstep = PReturn ptr string | PNext nat nat string

definition parseString_step :: "nat \<Rightarrow> nat \<Rightarrow> string \<Rightarrow> fault + pstep" where
  "parseString_step head tail b =
     thenDo (rd b head) (\<lambda>c.
       if c = DQUOTE then
         thenDo (wr tail NUL b) (\<lambda>b'. Inr (PReturn (Ptr (head + 1)) b'))
       else if c = BACKSLASH then
         thenDo (rd b (head + 1)) (\<lambda>c1.
           if c1 = CHR ''u'' then
             thenDo (getCharFromUnicode (head + 2) b) (\<lambda>ch.
               if ch = NUL then Inr (PReturn NULL b)
               else thenDo (wr tail ch b) (\<lambda>b'. Inr (PNext (head + 2 + 3 + 1) (tail + 1) b')))
           else
             (let esc = getEscape c1 in
              if esc = NUL then Inr (PReturn NULL b)
              else thenDo (wr tail esc b) (\<lambda>b'. Inr (PNext (head + 1 + 1) (tail + 1) b'))))
       else thenDo (wr tail c b) (\<lambda>b'. Inr (PNext (head + 1) (tail + 1) b')))"

lemma thenDo_Inr_iff: "thenDo m f = Inr y \<longleftrightarrow> (\<exists>x. m = Inr x \<and> f x = Inr y)"
  by (cases m) (auto simp: thenDo_def)

lemma thenDo_Inl_iff:
  "thenDo m f = Inl e \<longleftrightarrow> m = Inl e \<or> (\<exists>x. m = Inr x \<and> f x = Inl e)"
  by (cases m) (auto simp: thenDo_def)

lemma thenDo_simps [simp]: "thenDo (Inl e) f = Inl e" "thenDo (Inr x) f = f x"
  by (simp_all add: thenDo_def)

lemma rd_Inr_iff: "rd b p = Inr c \<longleftrightarrow> p < length b \<and> c = b ! p"
  by (auto simp: rd_def)

lemma wr_Inr_iff: "wr p c b = Inr b' \<longleftrightarrow> p < length b \<and> b' = b[p := c]"
  by (auto simp: wr_def)

lemma parseString_step_next:
  "parseString_step head tail b = Inr (PNext h t b') \<Longrightarrow>
     head < h \<and> head < length b \<and> length b' = length b"
  by (auto simp: parseString_step_def thenDo_Inr_iff rd_Inr_iff wr_Inr_iff Let_def
           split: if_splits)

text \<open>
  The loop of \<^verbatim>\<open>parseString\<close>: \<^verbatim>\<open>for( ; *head; ++head, ++tail )\<close>, and \<^verbatim>\<open>return 0\<close> after it.
\<close>

function parseString_loop :: "nat \<Rightarrow> nat \<Rightarrow> string \<Rightarrow> fault + (ptr \<times> string)" where
  "parseString_loop head tail b =
     (case rd b head of
        Inl e \<Rightarrow> Inl e
      | Inr c \<Rightarrow>
          if c = NUL then Inr (NULL, b)
          else
            (case parseString_step head tail b of
               Inl e \<Rightarrow> Inl e
             | Inr (PReturn r b') \<Rightarrow> Inr (r, b')
             | Inr (PNext h t b') \<Rightarrow> parseString_loop h t b'))"
  by pat_completeness auto
termination
  by (relation "measure (\<lambda>(head, tail, b). length b - head)")
     (auto dest!: parseString_step_next)

declare parseString_loop.simps [simp del]

definition parseString :: "nat \<Rightarrow> string \<Rightarrow> fault + (ptr \<times> string)" where
  "parseString str b = parseString_loop str str b"

subsection \<open>Names, text values and the literals true, false and null\<close>

text \<open>The part of \<^verbatim>\<open>propertyName\<close> after the assignment to \<^verbatim>\<open>property->name\<close>.\<close>

definition propertyName_scan :: "nat \<Rightarrow> string \<Rightarrow> fault + (ptr \<times> string)" where
  "propertyName_scan ptr b =
     thenDo (parseString ptr b) (\<lambda>(r, b1).
       case r of
         NULL \<Rightarrow> Inr (NULL, b1)
       | Ptr ptr1 \<Rightarrow>
           thenDo (goBlank ptr1 b1) (\<lambda>r2.
             case r2 of
               NULL \<Rightarrow> Inr (NULL, b1)
             | Ptr ptr2 \<Rightarrow>
                 thenDo (rd b1 ptr2) (\<lambda>c.
                   if c \<noteq> CHR '':'' then Inr (NULL, b1)
                   else thenDo (goBlank (ptr2 + 1) b1) (\<lambda>r3. Inr (r3, b1)))))"

definition propertyName :: "nat \<Rightarrow> nat \<Rightarrow> state \<Rightarrow> fault + (ptr \<times> state)" where
  "propertyName ptr property st =
     thenDo (modNode property (\<lambda>n. n\<lparr>name := Ptr (ptr + 1)\<rparr>) st) (\<lambda>st1.
       onBuf (propertyName_scan (ptr + 1)) st1)"

definition textValue :: "nat \<Rightarrow> nat \<Rightarrow> state \<Rightarrow> fault + (ptr \<times> state)" where
  "textValue ptr property st =
     thenDo (getNode st property) (\<lambda>n.
       case u_value n of
         NULL \<Rightarrow> Inl NullDeref
       | Ptr v \<Rightarrow>
           thenDo (modNode property (\<lambda>n. n\<lparr>u_value := Ptr (v + 1)\<rparr>) st) (\<lambda>st1.
           thenDo (onBuf (parseString (ptr + 1)) st1) (\<lambda>(r, st2).
             case r of
               NULL \<Rightarrow> Inr (NULL, st2)
             | Ptr ptr2 \<Rightarrow>
                 thenDo (modNode property (\<lambda>n. n\<lparr>type := JSON_TEXT\<rparr>) st2) (\<lambda>st3.
                   Inr (Ptr ptr2, st3)))))"

text \<open>The part of \<^verbatim>\<open>primitiveValue\<close> before the assignment to \<^verbatim>\<open>property->type\<close>.\<close>

definition primitiveValue_scan :: "nat \<Rightarrow> string \<Rightarrow> string \<Rightarrow> fault + (ptr \<times> string)" where
  "primitiveValue_scan ptr val b =
     thenDo (checkStr ptr val b) (\<lambda>r.
       case r of
         NULL \<Rightarrow> Inr (NULL, b)
       | Ptr ptr1 \<Rightarrow>
           thenDo (rd b ptr1) (\<lambda>c.
             if \<not> isEndOfPrimitive c then Inr (NULL, b) else setToNull ptr1 b))"

definition primitiveValue ::
  "nat \<Rightarrow> nat \<Rightarrow> string \<Rightarrow> jsonType_t \<Rightarrow> state \<Rightarrow> fault + (ptr \<times> state)" where
  "primitiveValue ptr property val ty st =
     thenDo (onBuf (primitiveValue_scan ptr val) st) (\<lambda>(r, st1).
       case r of
         NULL \<Rightarrow> Inr (NULL, st1)
       | Ptr ptr1 \<Rightarrow>
           thenDo (modNode property (\<lambda>n. n\<lparr>type := ty\<rparr>) st1) (\<lambda>st2. Inr (Ptr ptr1, st2)))"

definition trueValue :: "nat \<Rightarrow> nat \<Rightarrow> state \<Rightarrow> fault + (ptr \<times> state)" where
  "trueValue ptr property st = primitiveValue ptr property ''true'' JSON_BOOLEAN st"

definition falseValue :: "nat \<Rightarrow> nat \<Rightarrow> state \<Rightarrow> fault + (ptr \<times> state)" where
  "falseValue ptr property st = primitiveValue ptr property ''false'' JSON_BOOLEAN st"

definition nullValue :: "nat \<Rightarrow> nat \<Rightarrow> state \<Rightarrow> fault + (ptr \<times> state)" where
  "nullValue ptr property st = primitiveValue ptr property ''null'' JSON_NULL st"

subsection \<open>Numbers\<close>

definition expValue :: "nat \<Rightarrow> string \<Rightarrow> fault + ptr" where
  "expValue ptr b =
     thenDo (rd b ptr) (\<lambda>c.
       let ptr1 = (if c = CHR ''-'' \<or> c = CHR ''+'' then ptr + 1 else ptr) in
       thenDo (rd b ptr1) (\<lambda>c1.
         if \<not> isdigit c1 then Inr NULL else goNum (ptr1 + 1) b))"

definition fraqValue :: "nat \<Rightarrow> string \<Rightarrow> fault + ptr" where
  "fraqValue ptr b =
     thenDo (rd b ptr) (\<lambda>c.
       if \<not> isdigit c then Inr NULL
       else thenDo (goNum (ptr + 1) b) (\<lambda>r. case r of NULL \<Rightarrow> Inr NULL | Ptr p \<Rightarrow> Inr (Ptr p)))"

text \<open>
  \<^verbatim>\<open>strcmp\<close> of the C library. Each argument is the memory from the pointer to the end of its
  array; the comparison is of \<^verbatim>\<open>unsigned char\<close> values and stops at the first difference or
  at a common NUL. Only the sign of the result is specified by C, and only the sign is used.
\<close>

fun strcmp :: "string \<Rightarrow> string \<Rightarrow> fault + int" where
  "strcmp (a # as) (b # bs) =
     (if a \<noteq> b then Inr (int (of_char a) - int (of_char b))
      else if a = NUL then Inr 0
      else strcmp as bs)"
| "strcmp _ _ = Inl BufferOverrun"

text \<open>
  \<^verbatim>\<open>numValue\<close> in four parts. The integer part: the sign, then a lone zero or a run of
  digits.
\<close>

definition numValue_int :: "nat \<Rightarrow> string \<Rightarrow> fault + ptr" where
  "numValue_int ptr b =
     thenDo (rd b ptr) (\<lambda>c.
       let ptr1 = (if c = CHR ''-'' then ptr + 1 else ptr) in
       thenDo (rd b ptr1) (\<lambda>c1.
         if \<not> isdigit c1 then Inr NULL
         else if c1 \<noteq> CHR ''0'' then
           thenDo (goNum ptr1 b) (\<lambda>r. case r of NULL \<Rightarrow> Inr NULL | Ptr p \<Rightarrow> Inr (Ptr p))
         else
           thenDo (rd b (ptr1 + 1)) (\<lambda>c2.
             if isdigit c2 then Inr NULL else Inr (Ptr (ptr1 + 1)))))"

text \<open>The fraction and the exponent; each leaves the type Real in the node.\<close>

definition numValue_fraq :: "nat \<Rightarrow> nat \<Rightarrow> state \<Rightarrow> fault + (ptr \<times> state)" where
  "numValue_fraq ptr property st =
     thenDo (rd (buf st) ptr) (\<lambda>c.
       if c = CHR ''.'' then
         thenDo (fraqValue (ptr + 1) (buf st)) (\<lambda>r.
           case r of
             NULL \<Rightarrow> Inr (NULL, st)
           | Ptr ptr1 \<Rightarrow>
               thenDo (modNode property (\<lambda>n. n\<lparr>type := JSON_REAL\<rparr>) st) (\<lambda>st1.
                 Inr (Ptr ptr1, st1)))
       else Inr (Ptr ptr, st))"

definition numValue_exp :: "nat \<Rightarrow> nat \<Rightarrow> state \<Rightarrow> fault + (ptr \<times> state)" where
  "numValue_exp ptr property st =
     thenDo (rd (buf st) ptr) (\<lambda>c.
       if c = CHR ''e'' \<or> c = CHR ''E'' then
         thenDo (expValue (ptr + 1) (buf st)) (\<lambda>r.
           case r of
             NULL \<Rightarrow> Inr (NULL, st)
           | Ptr ptr1 \<Rightarrow>
               thenDo (modNode property (\<lambda>n. n\<lparr>type := JSON_REAL\<rparr>) st) (\<lambda>st1.
                 Inr (Ptr ptr1, st1)))
       else Inr (Ptr ptr, st))"

text \<open>
  The scan of the number, up to the test of \<^verbatim>\<open>isEndOfPrimitive\<close>: it leaves the type of the
  node set and returns the position after the literal.
\<close>

definition numValue_scan :: "nat \<Rightarrow> nat \<Rightarrow> state \<Rightarrow> fault + (ptr \<times> state)" where
  "numValue_scan ptr property st =
     thenDo (numValue_int ptr (buf st)) (\<lambda>r.
       case r of
         NULL \<Rightarrow> Inr (NULL, st)
       | Ptr ptr1 \<Rightarrow>
           thenDo (modNode property (\<lambda>n. n\<lparr>type := JSON_INTEGER\<rparr>) st) (\<lambda>st1.
           thenDo (numValue_fraq ptr1 property st1) (\<lambda>(r2, st2).
             case r2 of
               NULL \<Rightarrow> Inr (NULL, st2)
             | Ptr ptr2 \<Rightarrow>
                 thenDo (numValue_exp ptr2 property st2) (\<lambda>(r3, st3).
                   case r3 of
                     NULL \<Rightarrow> Inr (NULL, st3)
                   | Ptr ptr3 \<Rightarrow>
                       thenDo (rd (buf st3) ptr3) (\<lambda>c.
                         if \<not> isEndOfPrimitive c then Inr (NULL, st3)
                         else Inr (Ptr ptr3, st3))))))"

text \<open>The literals \<^verbatim>\<open>min\<close> and \<^verbatim>\<open>max\<close> of \<^verbatim>\<open>numValue\<close>, without their terminating NUL.\<close>

definition min_lit :: string where
  "min_lit = ''-9223372036854775808''"

definition max_lit :: string where
  "max_lit = ''9223372036854775807''"

text \<open>
  The range check on an integer literal that starts at \<^verbatim>\<open>value\<close> and ends before \<^verbatim>\<open>ptr\<close>.
  \<^verbatim>\<open>maxdigits\<close> and \<^verbatim>\<open>len\<close> are \<^verbatim>\<open>unsigned int\<close>: \<^verbatim>\<open>len\<close> is the pointer difference reduced
  modulo \<open>2 ^ 32\<close>. The result \<open>NULL\<close> is \<^verbatim>\<open>return 0\<close>; otherwise the check falls through to
  \<^verbatim>\<open>setToNull\<close> with \<^verbatim>\<open>ptr\<close> unchanged.
\<close>

definition numValue_range :: "nat \<Rightarrow> nat \<Rightarrow> string \<Rightarrow> fault + (ptr \<times> string)" where
  "numValue_range val ptr b =
     thenDo (rd b val) (\<lambda>c.
       let negative = (c = CHR ''-'');
           maxdigits = (word_of_nat
             ((if negative then length (c_str min_lit) else length (c_str max_lit)) - 1)
               :: 32 word);
           len = (word_of_int (int ptr - int val) :: 32 word)
       in
         if len > maxdigits then Inr (NULL, b)
         else if len = maxdigits then
           thenDo (rd b ptr) (\<lambda>tmp.
           thenDo (wr ptr NUL b) (\<lambda>b1.
             let threshold = (if negative then c_str min_lit else c_str max_lit) in
             thenDo (strcmp threshold (drop val b1)) (\<lambda>cmp.
               if 0 > cmp then Inr (NULL, b1)
               else thenDo (wr ptr tmp b1) (\<lambda>b2. Inr (Ptr ptr, b2)))))
         else Inr (Ptr ptr, b))"

definition numValue :: "nat \<Rightarrow> nat \<Rightarrow> state \<Rightarrow> fault + (ptr \<times> state)" where
  "numValue ptr property st =
     thenDo (numValue_scan ptr property st) (\<lambda>(r, st1).
       case r of
         NULL \<Rightarrow> Inr (NULL, st1)
       | Ptr ptr1 \<Rightarrow>
           thenDo (getNode st1 property) (\<lambda>n.
           thenDo
             (if JSON_INTEGER = type n then
                (case u_value n of
                   NULL \<Rightarrow> Inl NullDeref
                 | Ptr val \<Rightarrow> onBuf (numValue_range val ptr1) st1)
              else Inr (Ptr ptr1, st1))
             (\<lambda>(r2, st2).
               case r2 of
                 NULL \<Rightarrow> Inr (NULL, st2)
               | Ptr ptr2 \<Rightarrow> onBuf (setToNull ptr2) st2)))"

subsection \<open>Tree builder\<close>

definition add :: "nat \<Rightarrow> nat \<Rightarrow> state \<Rightarrow> fault + state" where
  "add obj property st =
     thenDo (modNode property (\<lambda>n. n\<lparr>sibling := NULL\<rparr>) st) (\<lambda>st1.
     thenDo (getNode st1 obj) (\<lambda>ob.
       case u_c_child ob of
         NULL \<Rightarrow>
           thenDo (modNode obj (\<lambda>n. n\<lparr>u_c_child := Ptr property\<rparr>) st1) (\<lambda>st2.
             modNode obj (\<lambda>n. n\<lparr>u_c_last_child := Ptr property\<rparr>) st2)
       | Ptr _ \<Rightarrow>
           (case u_c_last_child ob of
              NULL \<Rightarrow> Inl NullDeref
            | Ptr l \<Rightarrow>
                thenDo (modNode l (\<lambda>n. n\<lparr>sibling := Ptr property\<rparr>) st1) (\<lambda>st2.
                  modNode obj (\<lambda>n. n\<lparr>u_c_last_child := Ptr property\<rparr>) st2))))"

text \<open>
  One pass through the body of the \<^verbatim>\<open>for(;;)\<close> loop of \<^verbatim>\<open>objValue\<close> either returns from the
  function or goes round again with new values of \<^verbatim>\<open>ptr\<close> and \<^verbatim>\<open>obj\<close>.
\<close>

datatype step = Return ptr state | Continue nat nat state

text \<open>The end of the loop body: the result of a value parser, then \<^verbatim>\<open>if ( !ptr ) return 0;\<close>.\<close>

definition afterValue :: "nat \<Rightarrow> fault + (ptr \<times> state) \<Rightarrow> fault + step" where
  "afterValue obj m =
     thenDo m (\<lambda>(r, st). case r of NULL \<Rightarrow> Inr (Return NULL st) | Ptr p \<Rightarrow> Inr (Continue p obj st))"

text \<open>The loop body from \<^verbatim>\<open>add( obj, property )\<close> on: the new node is linked and its value parsed.\<close>

definition objValue_value :: "nat \<Rightarrow> nat \<Rightarrow> nat \<Rightarrow> state \<Rightarrow> fault + step" where
  "objValue_value ptr obj property st =
     thenDo (add obj property st) (\<lambda>st1.
     thenDo (modNode property (\<lambda>n. n\<lparr>u_value := Ptr ptr\<rparr>) st1) (\<lambda>st2.
     thenDo (rd (buf st2) ptr) (\<lambda>c.
       if c = CHR ''{'' then
         thenDo (modNode property
                   (\<lambda>n. n\<lparr>type := JSON_OBJ, u_c_child := NULL, sibling := Ptr obj\<rparr>) st2)
           (\<lambda>st3. Inr (Continue (ptr + 1) property st3))
       else if c = CHR ''['' then
         thenDo (modNode property
                   (\<lambda>n. n\<lparr>type := JSON_ARRAY, u_c_child := NULL, sibling := Ptr obj\<rparr>) st2)
           (\<lambda>st3. Inr (Continue (ptr + 1) property st3))
       else if c = DQUOTE then afterValue obj (textValue ptr property st2)
       else if c = CHR ''t'' then afterValue obj (trueValue ptr property st2)
       else if c = CHR ''f'' then afterValue obj (falseValue ptr property st2)
       else if c = CHR ''n'' then afterValue obj (nullValue ptr property st2)
       else afterValue obj (numValue ptr property st2))))"

text \<open>The loop body from \<^verbatim>\<open>pool->alloc( pool )\<close> on: a new member of the container.\<close>

definition objValue_member :: "nat \<Rightarrow> char \<Rightarrow> nat \<Rightarrow> state \<Rightarrow> fault + step" where
  "objValue_member ptr c obj st =
     (case poolAlloc st of
        (NULL, st1) \<Rightarrow> Inr (Return NULL st1)
      | (Ptr property, st1) \<Rightarrow>
          thenDo (getNode st1 obj) (\<lambda>ob.
            if type ob \<noteq> JSON_ARRAY then
              (if c \<noteq> DQUOTE then Inr (Return NULL st1)
               else
                 thenDo (propertyName ptr property st1) (\<lambda>(r, st2).
                   case r of
                     NULL \<Rightarrow> Inr (Return NULL st2)
                   | Ptr ptr2 \<Rightarrow> objValue_value ptr2 obj property st2))
            else
              thenDo (modNode property (\<lambda>n. n\<lparr>name := NULL\<rparr>) st1) (\<lambda>st2.
                objValue_value ptr obj property st2)))"

definition objValue_step :: "nat \<Rightarrow> nat \<Rightarrow> state \<Rightarrow> fault + step" where
  "objValue_step ptr obj st =
     thenDo (goBlank ptr (buf st)) (\<lambda>r.
       case r of
         NULL \<Rightarrow> Inr (Return NULL st)
       | Ptr ptr1 \<Rightarrow>
           thenDo (rd (buf st) ptr1) (\<lambda>c.
             if c = CHR '','' then Inr (Continue (ptr1 + 1) obj st)
             else
               thenDo (getNode st obj) (\<lambda>ob.
                 let endchar = (if type ob = JSON_OBJ then CHR ''}'' else CHR '']'') in
                 if c = endchar then
                   thenDo (wrBuf ptr1 NUL st) (\<lambda>st1.
                     case sibling ob of
                       NULL \<Rightarrow> Inr (Return (Ptr (ptr1 + 1)) st1)
                     | Ptr parentObj \<Rightarrow>
                         thenDo (modNode obj (\<lambda>n. n\<lparr>sibling := NULL\<rparr>) st1) (\<lambda>st2.
                           Inr (Continue (ptr1 + 1) parentObj st2)))
                 else objValue_member ptr1 c obj st)))"

subsection \<open>Every scanner moves forward and keeps the size of the buffer\<close>

lemma ptr_neq_NULL_iff: "r \<noteq> NULL \<longleftrightarrow> (\<exists>p. r = Ptr p)"
  by (cases r) auto

lemma goWhile_Ptr:
  "goWhile str cs b = Inr (Ptr p) \<Longrightarrow>
     str \<le> p \<and> p < length b \<and> b ! p \<noteq> NUL \<and> \<not> isOneOfThem (b ! p) cs \<and>
     (\<forall>i. str \<le> i \<and> i < p \<longrightarrow> b ! i \<noteq> NUL \<and> isOneOfThem (b ! i) cs)"
proof (induction str cs b rule: goWhile.induct)
  case (1 str cs b)
  show ?case
    apply (insert "1.prems")
    apply (subst (asm) goWhile.simps)
    apply (insert "1.IH")
    apply (auto simp: rd_Inr_iff split: sum.splits if_splits)
      apply (metis Suc_leI order_le_less)+
    done
qed

lemma goWhile_adv: "goWhile str cs b = Inr (Ptr p) \<Longrightarrow> str \<le> p \<and> p < length b"
  by (simp add: goWhile_Ptr)

lemma goBlank_adv: "goBlank str b = Inr (Ptr p) \<Longrightarrow> str \<le> p \<and> p < length b"
  unfolding goBlank_def by (rule goWhile_adv)

lemma goNum_Ptr:
  "goNum str b = Inr (Ptr p) \<Longrightarrow>
     str \<le> p \<and> p < length b \<and> b ! p \<noteq> NUL \<and> \<not> isdigit (b ! p) \<and>
     (\<forall>i. str \<le> i \<and> i < p \<longrightarrow> isdigit (b ! i))"
proof (induction str b rule: goNum.induct)
  case (1 str b)
  show ?case
    apply (insert "1.prems")
    apply (subst (asm) goNum.simps)
    apply (insert "1.IH")
    apply (auto simp: rd_Inr_iff split: sum.splits if_splits)
      apply (metis Suc_leI order_le_less)+
    done
qed

lemma goNum_adv: "goNum str b = Inr (Ptr p) \<Longrightarrow> str \<le> p \<and> p < length b"
  by (simp add: goNum_Ptr)

lemma checkStr_adv: "checkStr ptr s b = Inr (Ptr p) \<Longrightarrow> p = ptr + length s"
  by (induction s arbitrary: ptr) (fastforce split: sum.splits if_splits)+

lemma parseString_step_len:
  "parseString_step head tail b = Inr (PReturn r b') \<Longrightarrow> length b' = length b"
  by (auto simp: parseString_step_def thenDo_Inr_iff rd_Inr_iff wr_Inr_iff Let_def
           split: if_splits)

lemma parseString_step_ret:
  "parseString_step head tail b = Inr (PReturn (Ptr p) b') \<Longrightarrow> head < p"
  by (auto simp: parseString_step_def thenDo_Inr_iff rd_Inr_iff wr_Inr_iff Let_def
           split: if_splits)

lemma parseString_loop_len:
  "parseString_loop head tail b = Inr (r, b') \<Longrightarrow> length b' = length b"
proof (induction head tail b rule: parseString_loop.induct)
  case (1 head tail b)
  show ?case
    apply (insert "1.prems")
    apply (subst (asm) parseString_loop.simps)
    apply (insert "1.IH")
    apply (auto simp: rd_Inr_iff split: sum.splits if_splits pstep.splits
                dest!: parseString_step_len parseString_step_next)
    done
qed

lemma parseString_loop_adv:
  "parseString_loop head tail b = Inr (Ptr p, b') \<Longrightarrow> head < p"
proof (induction head tail b rule: parseString_loop.induct)
  case (1 head tail b)
  show ?case
    apply (insert "1.prems")
    apply (subst (asm) parseString_loop.simps)
    apply (insert "1.IH")
    apply (auto simp: rd_Inr_iff split: sum.splits if_splits pstep.splits
                dest!: parseString_step_ret parseString_step_next)
    done
qed

lemma parseString_adv: "parseString str b = Inr (Ptr p, b') \<Longrightarrow> str < p"
  unfolding parseString_def by (rule parseString_loop_adv)

lemma parseString_len: "parseString str b = Inr (r, b') \<Longrightarrow> length b' = length b"
  unfolding parseString_def by (rule parseString_loop_len)

lemma setToNull_adv:
  "setToNull ch b = Inr (r, b') \<Longrightarrow> (\<exists>p. r = Ptr p \<and> ch \<le> p) \<and> length b' = length b"
  by (auto simp: setToNull_def thenDo_Inr_iff rd_Inr_iff wr_Inr_iff split: if_splits)

lemma propertyName_scan_len:
  "propertyName_scan ptr b = Inr (r, b') \<Longrightarrow> length b' = length b"
  by (auto simp: propertyName_scan_def thenDo_def
           split: sum.splits prod.splits ptr.splits if_splits dest!: parseString_len)

lemma propertyName_scan_adv:
  "propertyName_scan ptr b = Inr (Ptr p, b') \<Longrightarrow> ptr < p"
  by (auto simp: propertyName_scan_def thenDo_def
           split: sum.splits prod.splits ptr.splits if_splits
           dest!: parseString_adv goBlank_adv)

lemma primitiveValue_scan_len:
  "primitiveValue_scan ptr val b = Inr (r, b') \<Longrightarrow> length b' = length b"
  by (auto simp: primitiveValue_scan_def thenDo_def
           split: sum.splits prod.splits ptr.splits if_splits dest!: setToNull_adv)

lemma primitiveValue_scan_adv:
  "primitiveValue_scan ptr val b = Inr (Ptr p, b') \<Longrightarrow> ptr + length val \<le> p"
  by (auto simp: primitiveValue_scan_def thenDo_def
           split: sum.splits prod.splits ptr.splits if_splits
           dest!: setToNull_adv checkStr_adv)

lemma expValue_adv: "expValue ptr b = Inr (Ptr p) \<Longrightarrow> ptr < p"
  by (auto simp: expValue_def thenDo_def Let_def split: sum.splits ptr.splits if_splits
           dest!: goNum_adv)

lemma fraqValue_adv: "fraqValue ptr b = Inr (Ptr p) \<Longrightarrow> ptr < p"
  by (auto simp: fraqValue_def thenDo_def Let_def split: sum.splits ptr.splits if_splits
           dest!: goNum_adv)

lemma numValue_int_adv: "numValue_int ptr b = Inr (Ptr p) \<Longrightarrow> ptr < p"
  by (auto simp: numValue_int_def thenDo_def Let_def rd_Inr_iff le_less
           split: sum.splits ptr.splits if_splits dest!: goNum_Ptr)

lemma modNode_buf: "modNode i f st = Inr st' \<Longrightarrow> buf st' = buf st"
  by (auto simp: modNode_def split: if_splits)

lemma onBuf_Inr_iff:
  "onBuf f st = Inr (r, st') \<longleftrightarrow> (\<exists>b'. f (buf st) = Inr (r, b') \<and> st' = st\<lparr>buf := b'\<rparr>)"
  by (auto simp: onBuf_def thenDo_Inr_iff)

lemma wrBuf_Inr_iff:
  "wrBuf p c st = Inr st' \<longleftrightarrow> p < length (buf st) \<and> st' = st\<lparr>buf := (buf st)[p := c]\<rparr>"
  by (auto simp: wrBuf_def thenDo_Inr_iff wr_Inr_iff)

lemma propertyName_len:
  "propertyName ptr property st = Inr (r, st') \<Longrightarrow> length (buf st') = length (buf st)"
  by (auto simp: propertyName_def thenDo_Inr_iff onBuf_Inr_iff
           dest!: modNode_buf propertyName_scan_len)

lemma propertyName_adv:
  "propertyName ptr property st = Inr (Ptr p, st') \<Longrightarrow> ptr < p"
  by (auto simp: propertyName_def thenDo_Inr_iff onBuf_Inr_iff
           dest!: modNode_buf propertyName_scan_adv)

lemma textValue_len:
  "textValue ptr property st = Inr (r, st') \<Longrightarrow> length (buf st') = length (buf st)"
  by (auto simp: textValue_def thenDo_def onBuf_Inr_iff
           split: sum.splits prod.splits ptr.splits
           dest!: modNode_buf parseString_len)

lemma textValue_adv:
  "textValue ptr property st = Inr (Ptr p, st') \<Longrightarrow> ptr < p"
  by (auto simp: textValue_def thenDo_def onBuf_Inr_iff
           split: sum.splits prod.splits ptr.splits
           dest!: modNode_buf parseString_adv)

lemma primitiveValue_len:
  "primitiveValue ptr property val ty st = Inr (r, st') \<Longrightarrow> length (buf st') = length (buf st)"
  by (auto simp: primitiveValue_def thenDo_def onBuf_Inr_iff
           split: sum.splits prod.splits ptr.splits
           dest!: modNode_buf primitiveValue_scan_len)

lemma primitiveValue_adv:
  "primitiveValue ptr property val ty st = Inr (Ptr p, st') \<Longrightarrow> ptr + length val \<le> p"
  by (auto simp: primitiveValue_def thenDo_def onBuf_Inr_iff
           split: sum.splits prod.splits ptr.splits
           dest!: modNode_buf primitiveValue_scan_adv)

lemma numValue_fraq_buf:
  "numValue_fraq ptr property st = Inr (r, st') \<Longrightarrow> buf st' = buf st"
  by (auto simp: numValue_fraq_def thenDo_def
           split: sum.splits prod.splits ptr.splits if_splits dest!: modNode_buf)

lemma numValue_fraq_adv:
  "numValue_fraq ptr property st = Inr (Ptr p, st') \<Longrightarrow> ptr \<le> p"
  by (auto simp: numValue_fraq_def thenDo_def
           split: sum.splits prod.splits ptr.splits if_splits dest!: fraqValue_adv)

lemma numValue_exp_buf:
  "numValue_exp ptr property st = Inr (r, st') \<Longrightarrow> buf st' = buf st"
  by (auto simp: numValue_exp_def thenDo_def
           split: sum.splits prod.splits ptr.splits if_splits dest!: modNode_buf)

lemma numValue_exp_adv:
  "numValue_exp ptr property st = Inr (Ptr p, st') \<Longrightarrow> ptr \<le> p"
  by (auto simp: numValue_exp_def thenDo_def
           split: sum.splits prod.splits ptr.splits if_splits dest!: expValue_adv)

lemma numValue_scan_buf:
  "numValue_scan ptr property st = Inr (r, st') \<Longrightarrow> buf st' = buf st"
  by (auto simp: numValue_scan_def thenDo_def
           split: sum.splits prod.splits ptr.splits if_splits
           dest!: modNode_buf numValue_fraq_buf numValue_exp_buf)

lemma numValue_scan_adv:
  "numValue_scan ptr property st = Inr (Ptr p, st') \<Longrightarrow> ptr < p"
  by (auto simp: numValue_scan_def thenDo_def
           split: sum.splits prod.splits ptr.splits if_splits
           dest!: numValue_int_adv numValue_fraq_adv numValue_exp_adv)

lemma numValue_range_len:
  "numValue_range val ptr b = Inr (r, b') \<Longrightarrow> length b' = length b"
  by (auto simp: numValue_range_def thenDo_def Let_def wr_Inr_iff
           split: sum.splits prod.splits ptr.splits if_splits)

lemma numValue_range_adv:
  "numValue_range val ptr b = Inr (Ptr p, b') \<Longrightarrow> p = ptr"
  by (auto simp: numValue_range_def thenDo_def Let_def
           split: sum.splits prod.splits ptr.splits if_splits)

lemma numValue_len:
  "numValue ptr property st = Inr (r, st') \<Longrightarrow> length (buf st') = length (buf st)"
  by (auto simp: numValue_def thenDo_def onBuf_Inr_iff
           split: sum.splits prod.splits ptr.splits if_splits
           dest!: numValue_scan_buf numValue_range_len setToNull_adv)

lemma numValue_adv:
  "numValue ptr property st = Inr (Ptr p, st') \<Longrightarrow> ptr < p"
  by (auto simp: numValue_def thenDo_def onBuf_Inr_iff
           split: sum.splits prod.splits ptr.splits if_splits
           dest!: numValue_scan_adv numValue_range_adv setToNull_adv)

lemma add_buf: "add obj property st = Inr st' \<Longrightarrow> buf st' = buf st"
  by (auto simp: add_def thenDo_def split: sum.splits ptr.splits dest!: modNode_buf)

lemma afterValue_Continue:
  "afterValue obj m = Inr (Continue p obj' st') \<longleftrightarrow> m = Inr (Ptr p, st') \<and> obj' = obj"
  by (auto simp: afterValue_def thenDo_def split: sum.splits prod.splits ptr.splits)

lemma textValue_Ptr:
  "textValue ptr property st = Inr (Ptr p, st') \<Longrightarrow>
     ptr < p \<and> length (buf st') = length (buf st)"
  by (simp add: textValue_adv textValue_len)

lemma primitiveValue_Ptr:
  "primitiveValue ptr property val ty st = Inr (Ptr p, st') \<Longrightarrow>
     ptr + length val \<le> p \<and> length (buf st') = length (buf st)"
  by (simp add: primitiveValue_adv primitiveValue_len)

lemma numValue_Ptr:
  "numValue ptr property st = Inr (Ptr p, st') \<Longrightarrow>
     ptr < p \<and> length (buf st') = length (buf st)"
  by (simp add: numValue_adv numValue_len)

lemma propertyName_Ptr:
  "propertyName ptr property st = Inr (Ptr p, st') \<Longrightarrow>
     ptr < p \<and> length (buf st') = length (buf st)"
  by (simp add: propertyName_adv propertyName_len)

lemma objValue_value_adv:
  "objValue_value ptr obj property st = Inr (Continue p obj' st') \<Longrightarrow>
     ptr < p \<and> length (buf st') = length (buf st)"
  by (auto simp: objValue_value_def thenDo_Inr_iff afterValue_Continue
                 trueValue_def falseValue_def nullValue_def
           split: if_splits
           dest!: modNode_buf add_buf textValue_Ptr numValue_Ptr primitiveValue_Ptr)

lemma poolAlloc_buf: "poolAlloc st = (r, st') \<Longrightarrow> buf st' = buf st"
  by (auto simp: poolAlloc_def split: if_splits)

lemma objValue_member_adv:
  "objValue_member ptr c obj st = Inr (Continue p obj' st') \<Longrightarrow>
     ptr < p \<and> length (buf st') = length (buf st)"
  by (auto simp: objValue_member_def thenDo_def
           split: sum.splits prod.splits ptr.splits if_splits
           dest!: poolAlloc_buf modNode_buf propertyName_Ptr objValue_value_adv)

lemma objValue_step_adv:
  "objValue_step ptr obj st = Inr (Continue p obj' st') \<Longrightarrow>
     ptr < p \<and> ptr < length (buf st) \<and> length (buf st') = length (buf st)"
  by (auto simp: objValue_step_def thenDo_def Let_def wrBuf_Inr_iff
           split: sum.splits prod.splits ptr.splits if_splits
           dest!: goBlank_adv modNode_buf objValue_member_adv)

function objValue_loop :: "nat \<Rightarrow> nat \<Rightarrow> state \<Rightarrow> fault + (ptr \<times> state)" where
  "objValue_loop ptr obj st =
     (case objValue_step ptr obj st of
        Inl e \<Rightarrow> Inl e
      | Inr (Return r st') \<Rightarrow> Inr (r, st')
      | Inr (Continue ptr' obj' st') \<Rightarrow> objValue_loop ptr' obj' st')"
  by pat_completeness auto
termination
  by (relation "measure (\<lambda>(ptr, obj, st). length (buf st) - ptr)")
     (auto dest!: objValue_step_adv)

declare objValue_loop.simps [simp del]

definition objValue :: "nat \<Rightarrow> nat \<Rightarrow> state \<Rightarrow> fault + (ptr \<times> state)" where
  "objValue ptr obj st =
     thenDo (rd (buf st) ptr) (\<lambda>c.
     thenDo (modNode obj
               (\<lambda>n. n\<lparr>type := (if c = CHR ''{'' then JSON_OBJ else JSON_ARRAY),
                       u_c_child := NULL, sibling := NULL\<rparr>) st) (\<lambda>st1.
       objValue_loop (ptr + 1) obj st1))"

subsection \<open>Entry points\<close>

text \<open>
  \<^verbatim>\<open>json_createWithPool\<close> with the static pool, whose \<^verbatim>\<open>init\<close> and \<^verbatim>\<open>alloc\<close> are \<^verbatim>\<open>poolInit\<close> and
  \<^verbatim>\<open>poolAlloc\<close>. The result is the pointer to the root node or \<open>NULL\<close>, and the memory.
\<close>

definition json_createWithPool :: "nat \<Rightarrow> state \<Rightarrow> fault + (ptr \<times> state)" where
  "json_createWithPool str st =
     thenDo (goBlank str (buf st)) (\<lambda>r.
       case r of
         NULL \<Rightarrow> Inr (NULL, st)
       | Ptr ptr \<Rightarrow>
           thenDo (rd (buf st) ptr) (\<lambda>c.
             if c \<noteq> CHR ''{'' \<and> c \<noteq> CHR ''['' then Inr (NULL, st)
             else
               (case poolInit st of
                  (NULL, st1) \<Rightarrow> Inl NullDeref
                | (Ptr obj, st1) \<Rightarrow>
                    thenDo (modNode obj
                              (\<lambda>n. n\<lparr>name := NULL, sibling := NULL, u_c_child := NULL\<rparr>) st1)
                      (\<lambda>st2.
                        thenDo (objValue ptr obj st2) (\<lambda>(r2, st3).
                          case r2 of
                            NULL \<Rightarrow> Inr (NULL, st3)
                          | Ptr _ \<Rightarrow> Inr (Ptr obj, st3))))))"

text \<open>
  \<^verbatim>\<open>json_create\<close>: \<open>str\<close> is the text (the pointer \<^verbatim>\<open>str\<close> is its index 0), \<open>mem\<close> the node array
  and \<open>qty\<close> the length the caller gives for it. \<^verbatim>\<open>spool.nextFree\<close> is indeterminate until
  \<^verbatim>\<open>poolInit\<close> assigns it, and is not read before; it starts as 0 here.
\<close>

definition json_create :: "string \<Rightarrow> json_t list \<Rightarrow> 32 word \<Rightarrow> fault + (ptr \<times> state)" where
  "json_create str mem0 qty0 =
     json_createWithPool 0 \<lparr>buf = str, mem = mem0, qty = qty0, nextFree = 0\<rparr>"

subsection \<open>Accessors\<close>

text \<open>
  The loop of \<^verbatim>\<open>json_getProperty\<close> follows \<^verbatim>\<open>sibling\<close> pointers until it meets a null pointer;
  on a cyclic chain it does not return, which is the result \<open>None\<close>. \<^verbatim>\<open>property\<close> is the
  caller's C string, given without its NUL.
\<close>

partial_function (option) json_getProperty_loop ::
  "ptr \<Rightarrow> string \<Rightarrow> state \<Rightarrow> (fault + ptr) option" where
  "json_getProperty_loop sib property st =
     (case sib of
        NULL \<Rightarrow> Some (Inr NULL)
      | Ptr s \<Rightarrow>
          (case getNode st s of
             Inl e \<Rightarrow> Some (Inl e)
           | Inr n \<Rightarrow>
               (case name n of
                  NULL \<Rightarrow> json_getProperty_loop (sibling n) property st
                | Ptr nm \<Rightarrow>
                    (case strcmp (drop nm (buf st)) (c_str property) of
                       Inl e \<Rightarrow> Some (Inl e)
                     | Inr d \<Rightarrow>
                         if d = 0 then Some (Inr (Ptr s))
                         else json_getProperty_loop (sibling n) property st))))"

definition json_getProperty :: "nat \<Rightarrow> string \<Rightarrow> state \<Rightarrow> (fault + ptr) option" where
  "json_getProperty obj property st =
     (case getNode st obj of
        Inl e \<Rightarrow> Some (Inl e)
      | Inr ob \<Rightarrow> json_getProperty_loop (u_c_child ob) property st)"

text \<open>
  Modelled from the spec: the inline accessors \<^verbatim>\<open>json_getType\<close> and \<^verbatim>\<open>json_getValue\<close> of the
  header \<^verbatim>\<open>tiny-json.h\<close>, which is not among the sources; by the spec (sections 3 and 6) they
  return the type tag of the node and its value string.
\<close>

definition json_getType :: "nat \<Rightarrow> state \<Rightarrow> fault + jsonType_t" where
  "json_getType json st = thenDo (getNode st json) (\<lambda>n. Inr (type n))"

definition json_getValue :: "nat \<Rightarrow> state \<Rightarrow> fault + ptr" where
  "json_getValue json st = thenDo (getNode st json) (\<lambda>n. Inr (u_value n))"

definition json_getPropertyValue :: "nat \<Rightarrow> string \<Rightarrow> state \<Rightarrow> (fault + ptr) option" where
  "json_getPropertyValue obj property st =
     (case json_getProperty obj property st of
        None \<Rightarrow> None
      | Some (Inl e) \<Rightarrow> Some (Inl e)
      | Some (Inr NULL) \<Rightarrow> Some (Inr NULL)
      | Some (Inr (Ptr field)) \<Rightarrow>
          Some (thenDo (json_getType field st) (\<lambda>ty.
                  if jsonType_rank JSON_ARRAY \<ge> jsonType_rank ty then Inr NULL
                  else json_getValue field st)))"

section \<open>Properties\<close>

subsection \<open>Reading results\<close>

text \<open>The pointer a function returned, without the memory.\<close>

definition returned :: "fault + (ptr \<times> 'a) \<Rightarrow> fault + ptr" where
  "returned m = map_sum id fst m"

text \<open>The C string that starts at index \<open>p\<close> of the buffer \<open>b\<close>.\<close>

definition cstring :: "string \<Rightarrow> nat \<Rightarrow> string" where
  "cstring b p = takeWhile (\<lambda>c. c \<noteq> NUL) (drop p b)"

text \<open>Some content for a node of the array before the parser has written to it.\<close>

definition node0 :: json_t where
  "node0 =
     \<lparr>sibling = NULL, name = NULL, u_value = NULL, u_c_child = NULL, u_c_last_child = NULL,
      type = JSON_NULL\<rparr>"

text \<open>The equations that evaluate the parser on a given text.\<close>

lemmas eval_simps =
  json_create_def json_createWithPool_def c_str_def goBlank_def goWhile.simps goNum.simps
  rd_def wr_def blank_def endofblock_def poolInit_def poolAlloc_def modNode_def getNode_def
  objValue_def objValue_loop.simps objValue_step_def objValue_member_def objValue_value_def
  propertyName_def propertyName_scan_def parseString_def parseString_loop.simps
  parseString_step_def onBuf_def wrBuf_def textValue_def primitiveValue_def
  primitiveValue_scan_def trueValue_def falseValue_def nullValue_def numValue_def
  numValue_scan_def numValue_int_def numValue_fraq_def numValue_exp_def numValue_range_def
  fraqValue_def expValue_def setToNull_def isEndOfPrimitive_def isdigit_def afterValue_def
  add_def returned_def getEscape_def pair_def getCharFromUnicode_def
  getCharFromUnicode_from.simps isxdigit_def min_lit_def max_lit_def Let_def

subsection \<open>Malformed documents (claim C2)\<close>

text \<open>
  Claim C2 says that parsing fails on each of \<^verbatim>\<open>{"a":}\<close>, \<^verbatim>\<open>[1,2,]\<close> and \<^verbatim>\<open>{a:1}\<close>. With three
  nodes in the pool, \<^verbatim>\<open>[1,2,]\<close> parses: the comma after \<^verbatim>\<open>2\<close> ends the number and is
  overwritten by \<^verbatim>\<open>setToNull\<close>, and the next pass of the loop finds the closing bracket.
\<close>

theorem C2_trailing_comma_parses:
  \<open>returned (json_create (c_str ''[1,2,]'') [node0, node0, node0] 3) = Inr (Ptr 0) \<and>
   returned (json_create (c_str ''[1,2,]'') [node0, node0, node0] 3) \<noteq> Inr NULL\<close>
  by (simp add: eval_simps word_le_nat_alt)

text \<open>
  Claim C2, amended: on a pool of at least one node, parsing \<^verbatim>\<open>{"a":}\<close> and parsing \<^verbatim>\<open>{a:1}\<close>
  return the null pointer; parsing \<^verbatim>\<open>[1,2,]\<close> returns the root when the pool has at least three
  nodes.
\<close>

theorem C2_malformed_documents:
  assumes \<open>0 < unat q\<close> and \<open>unat q \<le> length m\<close>
  shows \<open>returned (json_create (c_str ''{"a":}'') m q) = Inr NULL \<and>
         returned (json_create (c_str ''{a:1}'') m q) = Inr NULL \<and>
         (3 \<le> unat q \<longrightarrow> returned (json_create (c_str ''[1,2,]'') m q) = Inr (Ptr 0))\<close>
proof (intro conjI impI)
  show \<open>returned (json_create (c_str ''{"a":}'') m q) = Inr NULL\<close>
    using assms by (auto simp add: eval_simps word_le_nat_alt)
  show \<open>returned (json_create (c_str ''{a:1}'') m q) = Inr NULL\<close>
    using assms by (auto simp add: eval_simps word_le_nat_alt)
  show \<open>returned (json_create (c_str ''[1,2,]'') m q) = Inr (Ptr 0)\<close> if \<open>3 \<le> unat q\<close>
    using assms that by (auto simp add: eval_simps word_le_nat_alt unat_word_ariths)
qed

theorem C2_malformed_documents_witness:
  \<open>returned (json_create (c_str ''{"a":}'') [node0, node0, node0] 3) = Inr NULL \<and>
   returned (json_create (c_str ''{a:1}'') [node0, node0, node0] 3) = Inr NULL \<and>
   returned (json_create (c_str ''[1,2,]'') [node0, node0, node0] 3) = Inr (Ptr 0)\<close>
  using C2_malformed_documents [of 3 "[node0, node0, node0]"] by simp

subsection \<open>Unescaping a string (claim C7)\<close>

text \<open>
  The text of claim C7: the characters \<^verbatim>\<open>a\tb\n\"c\"\<close>, the closing quote and the NUL that ends
  the buffer; and the buffer that \<^verbatim>\<open>parseString\<close> leaves.
\<close>

definition C7_text :: string where
  "C7_text =
     [CHR ''a'', BACKSLASH, CHR ''t'', CHR ''b'', BACKSLASH, CHR ''n'', BACKSLASH, DQUOTE,
      CHR ''c'', BACKSLASH, DQUOTE, DQUOTE, NUL]"

definition C7_result :: string where
  "C7_result =
     [CHR ''a'', CHR 0x09, CHR ''b'', CHR 0x0A, DQUOTE, CHR ''c'', DQUOTE, NUL,
      CHR ''c'', BACKSLASH, DQUOTE, DQUOTE, NUL]"

text \<open>
  Claim C7 says that the content left in place is \<^verbatim>\<open>a<TAB>b"c"\<close>, terminated by a NUL where the
  closing quote was. The closing quote is at index 11 and is still there afterwards; the
  content has a line feed after the \<^verbatim>\<open>b\<close>.
\<close>

theorem C7_quote_not_overwritten:
  \<open>parseString 0 C7_text = Inr (Ptr 12, C7_result) \<and>
   C7_text ! 11 = DQUOTE \<and> C7_result ! 11 \<noteq> NUL \<and>
   cstring C7_result 0 \<noteq> [CHR ''a'', CHR 0x09, CHR ''b'', DQUOTE, CHR ''c'', DQUOTE]\<close>
  by (simp add: eval_simps C7_text_def C7_result_def cstring_def)

text \<open>
  Claim C7, amended: unescaping that text leaves in place the seven characters
  \<^verbatim>\<open>a<TAB>b<LF>"c"\<close>, terminated by a NUL at the write cursor (index 7, just after the
  content); the closing quote at index 11 is left as it was, and the function returns the
  position 12, just past the closing quote.
\<close>

theorem C7_unescape:
  \<open>parseString 0 C7_text = Inr (Ptr 12, C7_result) \<and>
   cstring C7_result 0 = [CHR ''a'', CHR 0x09, CHR ''b'', CHR 0x0A, DQUOTE, CHR ''c'', DQUOTE] \<and>
   C7_result ! 7 = NUL \<and> C7_text ! 11 = DQUOTE \<and> C7_result ! 11 = DQUOTE\<close>
  by (simp add: eval_simps C7_text_def C7_result_def cstring_def)

subsection \<open>The number scanner and the JSON number production (claim C4)\<close>

text \<open>The characters of the buffer from index \<open>i\<close> up to, not including, index \<open>j\<close>.\<close>

definition span :: "string \<Rightarrow> nat \<Rightarrow> nat \<Rightarrow> string" where
  "span b i j = take (j - i) (drop i b)"

lemma span_append:
  assumes "i \<le> j" "j \<le> k"
  shows "span b i k = span b i j @ span b j k"
proof -
  have "k - i = (j - i) + (k - j)" using assms by simp
  then have "take (k - i) (drop i b) = take (j - i) (drop i b) @ take (k - j) (drop (j - i) (drop i b))"
    by (simp only: take_add)
  then show ?thesis using assms by (simp add: span_def)
qed

lemma span_Suc: "i < length b \<Longrightarrow> span b i (Suc i) = [b ! i]"
  by (simp add: span_def take_Suc_conv_app_nth Cons_nth_drop_Suc [symmetric])

lemma span_self [simp]: "span b i i = []"
  by (simp add: span_def)

lemma length_span: "j \<le> length b \<Longrightarrow> length (span b i j) = j - i"
  by (simp add: span_def)

lemma span_nth: "j \<le> length b \<Longrightarrow> k < j - i \<Longrightarrow> span b i j ! k = b ! (i + k)"
  by (simp add: span_def)

lemma list_all_span:
  assumes "j \<le> length b"
  shows "list_all P (span b i j) \<longleftrightarrow> (\<forall>k. i \<le> k \<and> k < j \<longrightarrow> P (b ! k))"
proof
  assume L: "list_all P (span b i j)"
  show "\<forall>k. i \<le> k \<and> k < j \<longrightarrow> P (b ! k)"
  proof (intro allI impI)
    fix k assume k: "i \<le> k \<and> k < j"
    then have lt: "k - i < j - i" and ik: "i + (k - i) = k" by arith+
    with L assms have "P (span b i j ! (k - i))"
      by (simp add: list_all_length length_span)
    moreover have "span b i j ! (k - i) = b ! k"
      using span_nth [OF assms lt] ik by simp
    ultimately show "P (b ! k)" by simp
  qed
next
  assume "\<forall>k. i \<le> k \<and> k < j \<longrightarrow> P (b ! k)"
  with assms show "list_all P (span b i j)"
    by (simp add: list_all_length length_span span_nth)
qed

lemma isdigit_not_NUL: "isdigit c \<Longrightarrow> c \<noteq> NUL"
  by (auto simp: isdigit_def)

lemma goNum_run:
  "list_all isdigit ds \<Longrightarrow> \<not> isdigit c \<Longrightarrow> c \<noteq> NUL \<Longrightarrow>
   goNum (length pre) (pre @ ds @ c # rest) = Inr (Ptr (length pre + length ds))"
proof (induction ds arbitrary: pre)
  case Nil
  then show ?case by (subst goNum.simps) (simp add: rd_def)
next
  case (Cons d ds)
  from Cons.prems Cons.IH [of "pre @ [d]"] show ?case
    by (subst goNum.simps) (simp add: rd_def isdigit_not_NUL)
qed


text \<open>
  The JSON number production in the words of the spec (section 4.2), as a second definition
  to compare the scanner with: an optional leading \<^verbatim>\<open>-\<close>; then either a lone \<^verbatim>\<open>0\<close> or a nonzero
  digit followed by more digits; then an optional \<^verbatim>\<open>.\<close> fraction with at least one digit; then
  an optional \<^verbatim>\<open>e\<close> or \<^verbatim>\<open>E\<close> exponent with an optional sign and at least one digit. The literal
  is Integer when it has neither fraction nor exponent, and Real otherwise.
\<close>

definition json_sign :: "string \<Rightarrow> bool" where
  "json_sign sg \<longleftrightarrow> sg = [] \<or> sg = ''-''"

definition json_int_part :: "string \<Rightarrow> bool" where
  "json_int_part ip \<longleftrightarrow> ip = ''0'' \<or> (ip \<noteq> [] \<and> list_all isdigit ip \<and> hd ip \<noteq> CHR ''0'')"

fun json_frac_part :: "string \<Rightarrow> bool" where
  "json_frac_part [] = True"
| "json_frac_part (c # ds) = (c = CHR ''.'' \<and> ds \<noteq> [] \<and> list_all isdigit ds)"

fun json_exp_digits :: "string \<Rightarrow> bool" where
  "json_exp_digits [] = False"
| "json_exp_digits (s # ds) =
     (if s = CHR ''+'' \<or> s = CHR ''-'' then ds \<noteq> [] \<and> list_all isdigit ds
      else list_all isdigit (s # ds))"

fun json_exp_part :: "string \<Rightarrow> bool" where
  "json_exp_part [] = True"
| "json_exp_part (c # r) = ((c = CHR ''e'' \<or> c = CHR ''E'') \<and> json_exp_digits r)"

definition json_number :: "string \<Rightarrow> string \<Rightarrow> string \<Rightarrow> string \<Rightarrow> bool" where
  "json_number sg ip fp ep \<longleftrightarrow>
     json_sign sg \<and> json_int_part ip \<and> json_frac_part fp \<and> json_exp_part ep"

definition json_number_type :: "string \<Rightarrow> string \<Rightarrow> jsonType_t" where
  "json_number_type fp ep = (if fp = [] \<and> ep = [] then JSON_INTEGER else JSON_REAL)"

lemma isEndOfPrimitive_iff:
  "isEndOfPrimitive c \<longleftrightarrow>
     c \<in> {CHR '','', CHR '' '', CHR 0x0A, CHR 0x0D, CHR 0x09, CHR 0x0C, CHR ''}'', CHR '']''}"
  by (auto simp: isEndOfPrimitive_def blank_def endofblock_def)

lemma isEndOfPrimitive_not:
  "isEndOfPrimitive c \<Longrightarrow>
     \<not> isdigit c \<and> c \<noteq> NUL \<and> c \<noteq> CHR ''.'' \<and> c \<noteq> CHR ''e'' \<and> c \<noteq> CHR ''E'' \<and>
     c \<noteq> CHR ''-'' \<and> c \<noteq> CHR ''+''"
  by (auto simp: isEndOfPrimitive_iff isdigit_def)

lemma rd_append_at [simp]: "rd (pre @ c # rest) (length pre) = Inr c"
  by (simp add: rd_def)



lemma rd_append_Suc [simp]: "rd (pre @ x # c # rest) (Suc (length pre)) = Inr c"
  using rd_append_at [of "pre @ [x]" c rest] by simp

lemma numValue_int_nosign:
  assumes "json_int_part ip" "\<not> isdigit c" "c \<noteq> NUL"
  shows "numValue_int (length p) (p @ ip @ c # rest) = Inr (Ptr (length p + length ip))"
proof (cases "ip = ''0''")
  case True
  with assms show ?thesis
    by (simp add: numValue_int_def Let_def isdigit_def)
next
  case False
  with assms have ip: "ip \<noteq> []" "list_all isdigit ip" "hd ip \<noteq> CHR ''0''"
    by (auto simp: json_int_part_def)
  then obtain d ds where dds: "ip = d # ds" by (cases ip) auto
  with ip have d: "isdigit d" "d \<noteq> CHR ''0''" "d \<noteq> CHR ''-''"
    by (auto simp: isdigit_def)
  show ?thesis
    using goNum_run [OF ip(2) assms(2,3), of p rest] d
    by (simp add: numValue_int_def dds Let_def)
qed

lemma numValue_int_ok:
  assumes "json_sign sg" "json_int_part ip" "\<not> isdigit c" "c \<noteq> NUL"
  shows "numValue_int (length pre) (pre @ sg @ ip @ c # rest) =
           Inr (Ptr (length pre + length sg + length ip))"
proof -
  from assms(1) consider "sg = []" | "sg = ''-''" by (auto simp: json_sign_def)
  then show ?thesis
  proof cases
    case 1
    then show ?thesis using numValue_int_nosign [OF assms(2-4), of pre rest] by simp
  next
    case 2
    from assms(2) obtain d ds where dds: "ip = d # ds" and d: "isdigit d"
      by (cases ip) (auto simp: json_int_part_def isdigit_def)
    from d have "d \<noteq> CHR ''-''" by (auto simp: isdigit_def)
    then have step: "numValue_int (length pre) (pre @ CHR ''-'' # ip @ c # rest) =
            numValue_int (Suc (length pre)) (pre @ CHR ''-'' # ip @ c # rest)"
      by (simp add: numValue_int_def Let_def dds cong: if_cong)
    show ?thesis
      using numValue_int_nosign [OF assms(2-4), of "pre @ ''-''" rest] 2 step by simp
  qed
qed


lemma modNode_Inr_iff:
  "modNode i f st = Inr st' \<longleftrightarrow>
     i < length (mem st) \<and> st' = st\<lparr>mem := (mem st)[i := f (mem st ! i)]\<rparr>"
  by (auto simp: modNode_def)

text \<open>The node \<open>property\<close> with its type set.\<close>

definition setType :: "nat \<Rightarrow> jsonType_t \<Rightarrow> state \<Rightarrow> state" where
  "setType property ty st = st\<lparr>mem := (mem st)[property := (mem st ! property)\<lparr>type := ty\<rparr>]\<rparr>"

lemma modNode_type:
  "property < length (mem st) \<Longrightarrow>
     modNode property (\<lambda>n. n\<lparr>type := ty\<rparr>) st = Inr (setType property ty st)"
  by (simp add: modNode_def setType_def)

lemma setType_simps [simp]:
  "buf (setType property ty st) = buf st"
  "length (mem (setType property ty st)) = length (mem st)"
  by (simp_all add: setType_def)

lemma setType_twice [simp]:
  "setType property ty (setType property ty' st) = setType property ty st"
  by (cases "property < length (mem st)") (simp_all add: setType_def list_update_beyond)

lemma fraqValue_ok:
  assumes "ds \<noteq> []" "list_all isdigit ds" "\<not> isdigit c" "c \<noteq> NUL"
  shows "fraqValue (length pre) (pre @ ds @ c # rest) = Inr (Ptr (length pre + length ds))"
proof -
  from assms obtain d ds' where dds: "ds = d # ds'" and d: "isdigit d" "list_all isdigit ds'"
    by (cases ds) auto
  show ?thesis
    using goNum_run [OF d(2) assms(3,4), of "pre @ [d]" rest] d(1)
    by (simp add: fraqValue_def dds)
qed

lemma numValue_fraq_ok:
  assumes "json_frac_part fp" "\<not> isdigit c" "c \<noteq> NUL" "c \<noteq> CHR ''.''"
    and "property < length (mem st)" and "buf st = pre @ fp @ c # rest"
  shows "numValue_fraq (length pre) property st =
           Inr (Ptr (length pre + length fp),
                if fp = [] then st else setType property JSON_REAL st)"
proof (cases fp)
  case Nil
  with assms show ?thesis by (simp add: numValue_fraq_def)
next
  case (Cons x ds)
  with assms have x: "x = CHR ''.''" and ds: "ds \<noteq> []" "list_all isdigit ds" by auto
  show ?thesis
    using fraqValue_ok [OF ds assms(2,3), of "pre @ ''.''" rest] assms(5,6)
    by (simp add: numValue_fraq_def Cons x modNode_type)
qed

lemma expValue_ok:
  assumes "json_exp_digits r" "\<not> isdigit c" "c \<noteq> NUL"
  shows "expValue (length pre) (pre @ r @ c # rest) = Inr (Ptr (length pre + length r))"
proof -
  from assms(1) obtain s ds where r: "r = s # ds" by (cases r) auto
  show ?thesis
  proof (cases "s = CHR ''+'' \<or> s = CHR ''-''")
    case True
    with assms(1) r obtain d ds' where ds: "ds = d # ds'" "isdigit d" "list_all isdigit ds'"
      by (cases ds) auto
    show ?thesis
      using goNum_run [OF ds(3) assms(2,3), of "pre @ [s, d]" rest] ds(2) True
      by (auto simp add: expValue_def r ds(1) Let_def)
  next
    case False
    with assms(1) r have ds: "isdigit s" "list_all isdigit ds" by auto
    show ?thesis
      using goNum_run [OF ds(2) assms(2,3), of "pre @ [s]" rest] ds(1) False
      by (simp add: expValue_def r Let_def)
  qed
qed

lemma numValue_exp_ok:
  assumes "json_exp_part ep" "\<not> isdigit c" "c \<noteq> NUL" "c \<noteq> CHR ''e''" "c \<noteq> CHR ''E''"
    and "property < length (mem st)" and "buf st = pre @ ep @ c # rest"
  shows "numValue_exp (length pre) property st =
           Inr (Ptr (length pre + length ep),
                if ep = [] then st else setType property JSON_REAL st)"
proof (cases ep)
  case Nil
  with assms show ?thesis by (simp add: numValue_exp_def)
next
  case (Cons x r)
  with assms have x: "x = CHR ''e'' \<or> x = CHR ''E''" and r: "json_exp_digits r" by auto
  show ?thesis
    using expValue_ok [OF r assms(2,3), of "pre @ [x]" rest] assms(6,7) x
    by (auto simp add: numValue_exp_def Cons modNode_type)
qed


lemma json_follow:
  assumes "json_frac_part fp" "json_exp_part ep" "\<not> isdigit c" "c \<noteq> NUL"
  obtains x r where "fp @ ep @ c # rest = x # r" "\<not> isdigit x" "x \<noteq> NUL"
proof (cases fp)
  case Nil
  show ?thesis
  proof (cases ep)
    case Nil
    with \<open>fp = []\<close> assms(3,4) that [of c rest] show ?thesis
      by simp
  next
    case (Cons x r)
    with \<open>fp = []\<close> assms(2) that [of x "r @ c # rest"] show ?thesis
      by (auto simp: isdigit_def)
  qed
next
  case (Cons x r)
  with assms(1) that [of x "r @ ep @ c # rest"] show ?thesis
    by (auto simp: isdigit_def)
qed

lemma json_follow_exp:
  assumes "json_exp_part ep" "\<not> isdigit c" "c \<noteq> NUL" "c \<noteq> CHR ''.''"
  obtains x r where "ep @ c # rest = x # r" "\<not> isdigit x" "x \<noteq> NUL" "x \<noteq> CHR ''.''"
proof (cases ep)
  case Nil
  with assms(2-4) that [of c rest] show ?thesis
    by simp
next
  case (Cons x r)
  with assms(1) that [of x "r @ c # rest"] show ?thesis
    by (auto simp: isdigit_def)
qed

text \<open>
  The scan of a literal of the production that is followed by a character \<open>c\<close> which cannot
  continue a number: it reaches \<open>c\<close>, and the test of \<^verbatim>\<open>isEndOfPrimitive\<close> decides.
\<close>

lemma numValue_scan_run:
  assumes num: "json_number sg ip fp ep"
    and c: "\<not> isdigit c" "c \<noteq> NUL" "c \<noteq> CHR ''.''" "c \<noteq> CHR ''e''" "c \<noteq> CHR ''E''"
    and pr: "property < length (mem st)"
    and b: "buf st = pre @ sg @ ip @ fp @ ep @ c # rest"
  shows "numValue_scan (length pre) property st =
           Inr (if isEndOfPrimitive c then Ptr (length (pre @ sg @ ip @ fp @ ep)) else NULL,
                setType property (json_number_type fp ep) st)"
proof -
  from num have parts: "json_sign sg" "json_int_part ip" "json_frac_part fp" "json_exp_part ep"
    by (simp_all add: json_number_def)
  obtain x1 r1 where x1: "fp @ ep @ c # rest = x1 # r1" "\<not> isdigit x1" "x1 \<noteq> NUL"
    using json_follow [OF parts(3,4) c(1,2)] by blast
  obtain x2 r2 where x2: "ep @ c # rest = x2 # r2" "\<not> isdigit x2" "x2 \<noteq> NUL" "x2 \<noteq> CHR ''.''"
    using json_follow_exp [OF parts(4) c(1,2,3)] by blast
  let ?st1 = "setType property JSON_INTEGER st"
  have 1: "numValue_int (length pre) (buf st) = Inr (Ptr (length (pre @ sg @ ip)))"
    using numValue_int_ok [OF parts(1,2) x1(2,3), of pre r1] x1(1) b by simp
  have 2: "numValue_fraq (length (pre @ sg @ ip)) property ?st1 =
             Inr (Ptr (length (pre @ sg @ ip @ fp)),
                  if fp = [] then ?st1 else setType property JSON_REAL st)"
    using numValue_fraq_ok [OF parts(3) x2(2,3,4), of property ?st1 "pre @ sg @ ip" r2]
          x2(1) b pr by simp
  let ?st2 = "if fp = [] then ?st1 else setType property JSON_REAL st"
  have 3: "numValue_exp (length (pre @ sg @ ip @ fp)) property ?st2 =
             Inr (Ptr (length (pre @ sg @ ip @ fp @ ep)),
                  setType property (json_number_type fp ep) st)"
    using numValue_exp_ok [of ep c property ?st2 "pre @ sg @ ip @ fp" rest] parts(4) c b pr
    by (auto simp: json_number_type_def)
  have 4: "rd (buf st) (length (pre @ sg @ ip @ fp @ ep)) = Inr c"
    using rd_append_at [of "pre @ sg @ ip @ fp @ ep" c rest] b by simp
  show ?thesis
    unfolding numValue_scan_def using 1 2 3 4 pr
    by (simp add: modNode_type del: length_append)
qed

lemma numValue_scan_ok:
  assumes num: "json_number sg ip fp ep" and c: "isEndOfPrimitive c"
    and pr: "property < length (mem st)"
    and b: "buf st = pre @ sg @ ip @ fp @ ep @ c # rest"
  shows "numValue_scan (length pre) property st =
           Inr (Ptr (length (pre @ sg @ ip @ fp @ ep)),
                setType property (json_number_type fp ep) st)"
  using numValue_scan_run [OF num _ _ _ _ _ pr b] c isEndOfPrimitive_not [OF c] by simp

lemma span_Cons: "i < j \<Longrightarrow> j \<le> length b \<Longrightarrow> span b i j = b ! i # span b (Suc i) j"
  using span_append [of i "Suc i" j b] by (simp add: span_Suc)

lemma span_digits:
  "j \<le> length b \<Longrightarrow> \<forall>k. i \<le> k \<and> k < j \<longrightarrow> isdigit (b ! k) \<Longrightarrow> list_all isdigit (span b i j)"
  by (simp add: list_all_span)

lemma span_eq_Nil: "j \<le> length b \<Longrightarrow> span b i j = [] \<longleftrightarrow> j \<le> i"
  by (auto simp: span_def)

lemma case_ptr_id [simp]:
  "(case x of NULL \<Rightarrow> Inr NULL | Ptr p \<Rightarrow> Inr (Ptr p)) = Inr (Ptr q) \<longleftrightarrow> x = Ptr q"
  by (cases x) auto

lemma thenDo_ptr_id [simp]:
  "thenDo m (\<lambda>r. case r of NULL \<Rightarrow> Inr NULL | Ptr p \<Rightarrow> Inr (Ptr p)) = Inr (Ptr q) \<longleftrightarrow>
     m = Inr (Ptr q)"
  by (auto simp: thenDo_def split: sum.splits ptr.splits)

lemma numValue_int_nosign_sound:
  assumes "rd b p1 = Inr c1" "isdigit c1"
    and "(if c1 \<noteq> CHR ''0'' then thenDo (goNum p1 b) (\<lambda>r. case r of NULL \<Rightarrow> Inr NULL | Ptr p \<Rightarrow> Inr (Ptr p))
          else thenDo (rd b (p1 + 1)) (\<lambda>c2. if isdigit c2 then Inr NULL else Inr (Ptr (p1 + 1)))) = Inr (Ptr p)"
  shows "json_int_part (span b p1 p) \<and> p1 < p \<and> p < length b \<and> \<not> isdigit (b ! p)"
proof (cases "c1 = CHR ''0''")
  case True
  with assms show ?thesis
    by (auto simp: thenDo_Inr_iff rd_Inr_iff json_int_part_def span_Suc split: if_splits)
next
  case False
  with assms have g: "goNum p1 b = Inr (Ptr p)"
    by simp
  note G = goNum_Ptr [OF g]
  from assms(1,2) G have lt: "p1 < p"
    by (cases "p1 = p") (auto simp: rd_Inr_iff)
  with G have "span b p1 p = b ! p1 # span b (Suc p1) p"
    by (simp add: span_Cons)
  moreover from G have "list_all isdigit (span b p1 p)"
    by (simp add: list_all_span)
  ultimately show ?thesis
    using G lt False assms(1) by (auto simp: json_int_part_def rd_Inr_iff)
qed

lemma numValue_int_sound:
  assumes "numValue_int ptr b = Inr (Ptr p)"
  shows "\<exists>sg ip. json_sign sg \<and> json_int_part ip \<and> span b ptr p = sg @ ip \<and>
           ptr < p \<and> p < length b \<and> \<not> isdigit (b ! p)"
proof -
  from assms obtain c where c: "rd b ptr = Inr c"
    by (auto simp: numValue_int_def thenDo_Inr_iff)
  define p1 where "p1 = (if c = CHR ''-'' then ptr + 1 else ptr)"
  from assms c obtain c1 where c1: "rd b p1 = Inr c1" "isdigit c1"
    and rest: "(if c1 \<noteq> CHR ''0'' then thenDo (goNum p1 b) (\<lambda>r. case r of NULL \<Rightarrow> Inr NULL | Ptr p \<Rightarrow> Inr (Ptr p))
          else thenDo (rd b (p1 + 1)) (\<lambda>c2. if isdigit c2 then Inr NULL else Inr (Ptr (p1 + 1)))) = Inr (Ptr p)"
    by (auto simp: numValue_int_def thenDo_Inr_iff Let_def p1_def split: if_splits)
  note S = numValue_int_nosign_sound [OF c1 rest]
  show ?thesis
  proof (cases "c = CHR ''-''")
    case True
    then have p1: "p1 = Suc ptr" by (simp add: p1_def)
    from c True have "span b ptr p1 = ''-''"
      by (simp add: p1 span_Suc rd_Inr_iff)
    moreover have "span b ptr p = span b ptr p1 @ span b p1 p"
      using S by (intro span_append) (simp_all add: p1)
    ultimately show ?thesis
      using S p1 by (intro exI [of _ "''-''"] exI [of _ "span b p1 p"]) (simp add: json_sign_def)
  next
    case False
    then have "p1 = ptr" by (simp add: p1_def)
    with S show ?thesis
      by (intro exI [of _ "[]"] exI [of _ "span b p1 p"]) (simp add: json_sign_def)
  qed
qed

lemma fraqValue_sound:
  assumes "fraqValue ptr b = Inr (Ptr p)"
  shows "span b ptr p \<noteq> [] \<and> list_all isdigit (span b ptr p) \<and> ptr < p \<and> p < length b"
proof -
  from assms have d: "ptr < length b" "isdigit (b ! ptr)" and g: "goNum (ptr + 1) b = Inr (Ptr p)"
    by (auto simp: fraqValue_def thenDo_Inr_iff rd_Inr_iff split: if_splits)
  note G = goNum_Ptr [OF g]
  have "\<forall>k. ptr \<le> k \<and> k < p \<longrightarrow> isdigit (b ! k)"
    using G d by (metis Suc_eq_plus1 Suc_leI order_le_less)
  with G show ?thesis
    by (simp add: list_all_span span_eq_Nil)
qed

lemma numValue_fraq_sound:
  assumes "numValue_fraq ptr property st = Inr (Ptr p, st')"
  shows "json_frac_part (span (buf st) ptr p) \<and> ptr \<le> p \<and> p < length (buf st) \<and>
         st' = (if span (buf st) ptr p = [] then st else setType property JSON_REAL st) \<and>
         (span (buf st) ptr p = [] \<longrightarrow> buf st ! p \<noteq> CHR ''.'')"
proof -
  from assms obtain c where c: "ptr < length (buf st)" "c = buf st ! ptr"
    by (auto simp: numValue_fraq_def thenDo_Inr_iff rd_Inr_iff)
  show ?thesis
  proof (cases "c = CHR ''.''")
    case False
    with assms c show ?thesis
      by (auto simp: numValue_fraq_def thenDo_Inr_iff rd_Inr_iff)
  next
    case True
    with assms c have f: "fraqValue (ptr + 1) (buf st) = Inr (Ptr p)"
      and st': "st' = setType property JSON_REAL st"
      by (auto simp: numValue_fraq_def thenDo_Inr_iff rd_Inr_iff modNode_Inr_iff setType_def
                     ptr_neq_NULL_iff split: ptr.splits)
    note F = fraqValue_sound [OF f]
    from F c True have "span (buf st) ptr p = CHR ''.'' # span (buf st) (Suc ptr) p"
      by (simp add: span_Cons)
    with F st' show ?thesis by simp
  qed
qed

lemma expValue_sound:
  assumes "expValue ptr b = Inr (Ptr p)"
  shows "json_exp_digits (span b ptr p) \<and> ptr < p \<and> p < length b"
proof -
  from assms obtain c where c: "ptr < length b" "c = b ! ptr"
    by (auto simp: expValue_def thenDo_Inr_iff rd_Inr_iff)
  define p1 where "p1 = (if c = CHR ''-'' \<or> c = CHR ''+'' then ptr + 1 else ptr)"
  from assms c have d: "p1 < length b" "isdigit (b ! p1)" and g: "goNum (p1 + 1) b = Inr (Ptr p)"
    by (auto simp: expValue_def thenDo_Inr_iff rd_Inr_iff Let_def p1_def split: if_splits)
  note G = goNum_Ptr [OF g]
  have digs: "\<forall>k. p1 \<le> k \<and> k < p \<longrightarrow> isdigit (b ! k)"
    using G d by (metis Suc_eq_plus1 Suc_leI order_le_less)
  have sp: "span b p1 p = b ! p1 # span b (Suc p1) p"
    using G by (simp add: span_Cons)
  have all: "list_all isdigit (span b p1 p)"
    using G digs by (simp add: list_all_span)
  show ?thesis
  proof (cases "c = CHR ''-'' \<or> c = CHR ''+''")
    case True
    then have p1: "p1 = Suc ptr" by (simp add: p1_def)
    have "span b ptr p = c # span b p1 p"
      using G c p1 by (simp add: span_Cons)
    with True all sp G p1 show ?thesis by auto
  next
    case False
    then have p1: "p1 = ptr" by (simp add: p1_def)
    from d False c p1 have "b ! ptr \<noteq> CHR ''+'' \<and> b ! ptr \<noteq> CHR ''-''" by simp
    with all sp G p1 show ?thesis by auto
  qed
qed

lemma numValue_exp_sound:
  assumes "numValue_exp ptr property st = Inr (Ptr p, st')"
  shows "json_exp_part (span (buf st) ptr p) \<and> ptr \<le> p \<and> p < length (buf st) \<and>
         st' = (if span (buf st) ptr p = [] then st else setType property JSON_REAL st)"
proof -
  from assms obtain c where c: "ptr < length (buf st)" "c = buf st ! ptr"
    by (auto simp: numValue_exp_def thenDo_Inr_iff rd_Inr_iff)
  show ?thesis
  proof (cases "c = CHR ''e'' \<or> c = CHR ''E''")
    case False
    with assms c show ?thesis
      by (auto simp: numValue_exp_def thenDo_Inr_iff rd_Inr_iff)
  next
    case True
    with assms c have f: "expValue (ptr + 1) (buf st) = Inr (Ptr p)"
      and st': "st' = setType property JSON_REAL st"
      by (auto simp: numValue_exp_def thenDo_Inr_iff rd_Inr_iff modNode_Inr_iff setType_def
                     ptr_neq_NULL_iff split: ptr.splits)
    note F = expValue_sound [OF f]
    from F c True have "span (buf st) ptr p = c # span (buf st) (Suc ptr) p"
      by (simp add: span_Cons)
    with F st' True show ?thesis by auto
  qed
qed


lemma numValue_scan_sound:
  assumes "numValue_scan ptr property st = Inr (Ptr e, st')"
  shows "\<exists>sg ip fp ep. json_number sg ip fp ep \<and> span (buf st) ptr e = sg @ ip @ fp @ ep \<and>
           ptr < e \<and> e < length (buf st) \<and> isEndOfPrimitive (buf st ! e) \<and>
           property < length (mem st) \<and> st' = setType property (json_number_type fp ep) st"
proof -
  let ?b = "buf st"
  let ?st1 = "setType property JSON_INTEGER st"
  from assms obtain p1 p2 st2 where
    i: "numValue_int ptr ?b = Inr (Ptr p1)" and pr: "property < length (mem st)" and
    f: "numValue_fraq p1 property ?st1 = Inr (Ptr p2, st2)" and
    x: "numValue_exp p2 property st2 = Inr (Ptr e, st')" and
    c: "e < length (buf st')" "isEndOfPrimitive (buf st' ! e)"
    by (auto simp: numValue_scan_def thenDo_Inr_iff modNode_Inr_iff setType_def rd_Inr_iff
                   ptr_neq_NULL_iff split: ptr.splits if_splits)
  from numValue_int_sound [OF i] obtain sg ip where
    I: "json_sign sg" "json_int_part ip" "span ?b ptr p1 = sg @ ip" "ptr < p1" "p1 < length ?b"
    by blast
  note F = numValue_fraq_sound [OF f]
  note X = numValue_exp_sound [OF x]
  from F have b2: "buf st2 = ?b" by (auto split: if_splits)
  with X have b3: "buf st' = ?b" by (auto split: if_splits)
  let ?fp = "span ?b p1 p2" and ?ep = "span ?b p2 e"
  have "span ?b ptr e = span ?b ptr p1 @ span ?b p1 e"
    using I F X b2 by (intro span_append) auto
  also have "span ?b p1 e = ?fp @ ?ep"
    using F X b2 by (intro span_append) auto
  finally have sp: "span ?b ptr e = sg @ ip @ ?fp @ ?ep" using I by simp
  have ty: "st' = setType property (json_number_type ?fp ?ep) st"
    using F X b2 by (auto simp: json_number_type_def)
  have "json_number sg ip ?fp ?ep"
    using I F X b2 by (simp add: json_number_def)
  with sp ty I F X c b2 b3 pr show ?thesis
    by (intro exI [of _ sg] exI [of _ ip] exI [of _ ?fp] exI [of _ ?ep]) auto
qed

text \<open>
  Claim C4: the number scanner accepts exactly the production. A literal of the production,
  followed by a character that ends a primitive, is scanned to its end, and the node gets the
  type Integer when the literal has neither fraction nor exponent and Real otherwise;
  conversely, whenever the scanner succeeds, the characters it went over are a literal of
  the production, followed by a character that ends a primitive, and the node has that type.
\<close>

theorem C4_number_grammar:
  "(json_number sg ip fp ep \<and> isEndOfPrimitive c \<and> property < length (mem st) \<and>
    buf st = pre @ sg @ ip @ fp @ ep @ c # rest \<longrightarrow>
      numValue_scan (length pre) property st =
        Inr (Ptr (length (pre @ sg @ ip @ fp @ ep)),
             setType property (json_number_type fp ep) st)) \<and>
   (numValue_scan ptr property st = Inr (Ptr e, st') \<longrightarrow>
      (\<exists>sg ip fp ep.
         json_number sg ip fp ep \<and> span (buf st) ptr e = sg @ ip @ fp @ ep \<and>
         e < length (buf st) \<and> isEndOfPrimitive (buf st ! e) \<and>
         st' = setType property (json_number_type fp ep) st))"
proof (intro conjI impI)
  assume "json_number sg ip fp ep \<and> isEndOfPrimitive c \<and> property < length (mem st) \<and>
    buf st = pre @ sg @ ip @ fp @ ep @ c # rest"
  then show "numValue_scan (length pre) property st =
        Inr (Ptr (length (pre @ sg @ ip @ fp @ ep)),
             setType property (json_number_type fp ep) st)"
    by (intro numValue_scan_ok) simp_all
next
  assume "numValue_scan ptr property st = Inr (Ptr e, st')"
  from numValue_scan_sound [OF this]
  show "\<exists>sg ip fp ep.
         json_number sg ip fp ep \<and> span (buf st) ptr e = sg @ ip @ fp @ ep \<and>
         e < length (buf st) \<and> isEndOfPrimitive (buf st ! e) \<and>
         st' = setType property (json_number_type fp ep) st"
    by blast
qed

text \<open>The text \<^verbatim>\<open>[-12.5e+3,1]\<close> with two nodes, for the witness of C4.\<close>

definition C4_state :: state where
  "C4_state = \<lparr>buf = c_str ''[-12.5e+3,1]'', mem = [node0, node0], qty = 2, nextFree = 2\<rparr>"

theorem C4_number_grammar_witness:
  "numValue_scan 1 1 C4_state = Inr (Ptr 9, setType 1 JSON_REAL C4_state) \<and>
   (\<exists>sg ip fp ep.
      json_number sg ip fp ep \<and> span (buf C4_state) 1 9 = sg @ ip @ fp @ ep \<and>
      9 < length (buf C4_state) \<and> isEndOfPrimitive (buf C4_state ! 9) \<and>
      setType 1 JSON_REAL C4_state = setType 1 (json_number_type fp ep) C4_state)"
  using C4_number_grammar [of "''-''" "''12''" "''.5''" "''e+3''" "CHR '',''" 1 C4_state "''[''"
      "c_str ''1]''" 1 9 "setType 1 JSON_REAL C4_state"]
  by (simp add: C4_state_def c_str_def json_number_def json_sign_def json_int_part_def
        isdigit_def isEndOfPrimitive_iff json_number_type_def)

subsection \<open>The scan stays within a NUL-terminated buffer (claim C10)\<close>

text \<open>
  \<open>ok E m Q\<close>: the computation \<open>m\<close> either stops with a fault of the set \<open>E\<close> or returns a
  value that satisfies \<open>Q\<close>. With \<open>E = {}\<close> the computation has no undefined behaviour.
\<close>

definition ok :: "fault set \<Rightarrow> fault + 'a \<Rightarrow> ('a \<Rightarrow> bool) \<Rightarrow> bool" where
  "ok E m Q = (case m of Inl e \<Rightarrow> e \<in> E | Inr x \<Rightarrow> Q x)"

lemma ok_Inr [simp]: "ok E (Inr x) Q = Q x"
  by (simp add: ok_def)

lemma ok_Inl [simp]: "ok E (Inl e) Q = (e \<in> E)"
  by (simp add: ok_def)

lemma ok_thenDo [simp]: "ok E (thenDo m g) Q = ok E m (\<lambda>x. ok E (g x) Q)"
  by (cases m) simp_all

lemma ok_rd [simp]: "ok E (rd b p) Q = (if p < length b then Q (b ! p) else BufferOverrun \<in> E)"
  by (simp add: rd_def)

lemma ok_wr [simp]:
  "ok E (wr p c b) Q = (if p < length b then Q (b[p := c]) else BufferOverrun \<in> E)"
  by (simp add: wr_def)

lemma ok_getNode [simp]:
  "ok E (getNode st i) Q = (if i < length (mem st) then Q (mem st ! i) else PoolOverrun \<in> E)"
  by (simp add: getNode_def)

lemma ok_modNode [simp]:
  "ok E (modNode i f st) Q =
     (if i < length (mem st) then Q (st\<lparr>mem := (mem st)[i := f (mem st ! i)]\<rparr>)
      else PoolOverrun \<in> E)"
  by (simp add: modNode_def)

lemma ok_onBuf [simp]:
  "ok E (onBuf f st) Q = ok E (f (buf st)) (\<lambda>(r, b'). Q (r, st\<lparr>buf := b'\<rparr>))"
  by (cases "f (buf st)") (auto simp: onBuf_def)

lemma ok_wrBuf [simp]:
  "ok E (wrBuf p c st) Q =
     (if p < length (buf st) then Q (st\<lparr>buf := (buf st)[p := c]\<rparr>) else BufferOverrun \<in> E)"
  by (simp add: wrBuf_def)

lemma ok_mono:
  "ok E m P \<Longrightarrow> (\<And>x. m = Inr x \<Longrightarrow> P x \<Longrightarrow> Q x) \<Longrightarrow> E \<subseteq> E' \<Longrightarrow> ok E' m Q"
  by (cases m) auto

lemma ok_InrD: "ok E m P \<Longrightarrow> m = Inr x \<Longrightarrow> P x"
  by simp

text \<open>
  The buffer has a NUL at index \<open>z\<close>: for a NUL-terminated text, \<open>z\<close> is the index of its
  terminator. \<open>below z r\<close>: the pointer \<open>r\<close> is null or does not point past index \<open>z\<close>.
\<close>

definition nulAt :: "nat \<Rightarrow> string \<Rightarrow> bool" where
  "nulAt z b \<longleftrightarrow> z < length b \<and> b ! z = NUL"

definition below :: "nat \<Rightarrow> ptr \<Rightarrow> bool" where
  "below z r = (case r of NULL \<Rightarrow> True | Ptr p \<Rightarrow> p \<le> z)"

lemma below_simps [simp]: "below z NULL" "below z (Ptr p) = (p \<le> z)"
  by (simp_all add: below_def)

lemma goWhile_safe:
  "nulAt z b \<Longrightarrow> str \<le> z \<Longrightarrow> ok {} (goWhile str cs b) (below z)"
proof (induction str cs b rule: goWhile.induct)
  case (1 str cs b)
  show ?case
    apply (subst goWhile.simps)
    apply (insert 1)
    apply (cases "str = z")
     apply (auto simp: nulAt_def rd_def)
    done
qed


lemma goBlank_safe: "nulAt z b \<Longrightarrow> str \<le> z \<Longrightarrow> ok {} (goBlank str b) (below z)"
  unfolding goBlank_def by (rule goWhile_safe)

lemma goNum_safe:
  "nulAt z b \<Longrightarrow> str \<le> z \<Longrightarrow> ok {} (goNum str b) (below z)"
proof (induction str b rule: goNum.induct)
  case (1 str b)
  show ?case
    apply (subst goNum.simps)
    apply (insert 1)
    apply (cases "str = z")
     apply (auto simp: nulAt_def rd_def)
    done
qed

lemma checkStr_safe:
  "nulAt z b \<Longrightarrow> ptr \<le> z \<Longrightarrow> NUL \<notin> set s \<Longrightarrow> ok {} (checkStr ptr s b) (below z)"
proof (induction s arbitrary: ptr)
  case Nil
  then show ?case by simp
next
  case (Cons c s)
  show ?case
    using Cons.prems Cons.IH [of "ptr + 1"]
    by (cases "ptr = z") (auto simp: nulAt_def rd_def)
qed

lemma setToNull_safe:
  "nulAt z b \<Longrightarrow> ch \<le> z \<Longrightarrow> b ! ch \<noteq> NUL \<Longrightarrow>
     ok {} (setToNull ch b) (\<lambda>(r, b'). nulAt z b' \<and> below z r)"
  by (cases "ch = z") (auto simp: setToNull_def nulAt_def)

lemma isxdigit_not_NUL: "isxdigit c \<Longrightarrow> c \<noteq> NUL"
  by (auto simp: isxdigit_def)

lemma getCharFromUnicode_from_safe:
  "nulAt z b \<Longrightarrow> str + i \<le> z \<Longrightarrow>
     ok {} (getCharFromUnicode_from i str b) (\<lambda>ch. ch \<noteq> NUL \<longrightarrow> str + 4 \<le> z)"
proof (induction i str b rule: getCharFromUnicode_from.induct)
  case (1 i str b)
  show ?case
  proof (cases "i < 4")
    case False
    with "1.prems" show ?thesis
      by (subst getCharFromUnicode_from.simps) simp
  next
    case True
    from "1.prems" have rd: "rd b (str + i) = Inr (b ! (str + i))"
      by (simp add: nulAt_def rd_def)
    show ?thesis
    proof (cases "isxdigit (b ! (str + i))")
      case False
      with True rd show ?thesis
        by (subst getCharFromUnicode_from.simps) simp
    next
      case x: True
      with "1.prems" have "str + i \<noteq> z"
        by (auto simp: nulAt_def dest: isxdigit_not_NUL)
      with "1.prems" have "str + (i + 1) \<le> z" by simp
      from "1.IH" [OF True rd _ "1.prems"(1) this] x True rd show ?thesis
        by (subst getCharFromUnicode_from.simps) simp
    qed
  qed
qed

lemma getCharFromUnicode_safe:
  "nulAt z b \<Longrightarrow> str \<le> z \<Longrightarrow>
     ok {} (getCharFromUnicode str b) (\<lambda>ch. ch \<noteq> NUL \<longrightarrow> str + 4 \<le> z)"
  unfolding getCharFromUnicode_def by (rule getCharFromUnicode_from_safe) simp_all

lemma getEscape_NUL [simp]: "getEscape NUL = NUL"
  by (simp add: getEscape_def pair_def)

text \<open>The loop of parseString keeps the write cursor at or behind the read cursor.\<close>

lemma nulAt_step: "nulAt z b \<Longrightarrow> i \<le> z \<Longrightarrow> b ! i \<noteq> NUL \<Longrightarrow> Suc i \<le> z"
  by (cases "i = z") (auto simp: nulAt_def)

lemma nulAt_update: "nulAt z b \<Longrightarrow> i < length b \<Longrightarrow> i \<noteq> z \<or> c = NUL \<Longrightarrow> nulAt z (b[i := c])"
  by (auto simp: nulAt_def nth_list_update)

lemma parseString_step_safe:
  assumes "nulAt z b" "head \<le> z" "tail \<le> head" "b ! head \<noteq> NUL"
  shows "ok {} (parseString_step head tail b)
       (\<lambda>s. case s of
              PReturn r b' \<Rightarrow> nulAt z b' \<and> below z r
            | PNext h t b' \<Rightarrow> nulAt z b' \<and> h \<le> z \<and> t \<le> h)"
proof -
  note h1 = nulAt_step [OF assms(1,2,4)]
  from assms h1 have lens: "tail < length b" "head < length b" "Suc head < length b" "tail \<noteq> z"
    by (auto simp: nulAt_def)
  have h2: "Suc (Suc head) \<le> z" if "b ! Suc head \<noteq> NUL"
    using nulAt_step [OF assms(1) h1 that] .
  have hu: "b ! Suc head = CHR ''u'' \<longrightarrow> Suc (Suc head) \<le> z"
    using h2 by auto
  have he: "getEscape (b ! Suc head) \<noteq> NUL \<longrightarrow> Suc (Suc head) \<le> z"
    using h2 by (cases "b ! Suc head = NUL") auto
  have w: "nulAt z (b[tail := c])" for c
    using assms(1) lens by (intro nulAt_update) auto
  show ?thesis
    using lens assms(1,3) h1 w hu he
    apply (simp add: parseString_step_def Let_def)
    apply (intro conjI impI)
    apply (rule ok_mono [OF getCharFromUnicode_safe [OF assms(1)]])
      apply auto
    done
qed

lemma parseString_loop_safe:
  "nulAt z b \<Longrightarrow> head \<le> z \<Longrightarrow> tail \<le> head \<Longrightarrow>
     ok {} (parseString_loop head tail b) (\<lambda>(r, b'). nulAt z b' \<and> below z r)"
proof (induction head tail b rule: parseString_loop.induct)
  case (1 head tail b)
  from "1.prems" have rd: "rd b head = Inr (b ! head)"
    by (simp add: rd_def nulAt_def)
  show ?case
  proof (cases "b ! head = NUL")
    case True
    with rd "1.prems" show ?thesis
      by (subst parseString_loop.simps) simp
  next
    case False
    note S = parseString_step_safe [OF "1.prems" False]
    show ?thesis
    proof (cases "parseString_step head tail b")
      case (Inl e)
      with S show ?thesis by simp
    next
      case (Inr s)
      show ?thesis
      proof (cases s)
        case (PReturn r b')
        with S Inr rd False show ?thesis
          by (subst parseString_loop.simps) simp
      next
        case (PNext h t b')
        with S Inr have "nulAt z b'" "h \<le> z" "t \<le> h" by simp_all
        from "1.IH" [OF rd False Inr PNext this] Inr PNext rd False show ?thesis
          by (subst parseString_loop.simps) simp
      qed
    qed
  qed
qed

lemma parseString_safe:
  "nulAt z b \<Longrightarrow> str \<le> z \<Longrightarrow>
     ok {} (parseString str b) (\<lambda>(r, b'). nulAt z b' \<and> below z r)"
  unfolding parseString_def by (rule parseString_loop_safe) simp_all


lemmas safe_calls =
  ok_mono [OF goBlank_safe] ok_mono [OF goNum_safe] ok_mono [OF parseString_safe]
  ok_mono [OF checkStr_safe] ok_mono [OF setToNull_safe]

lemma propertyName_scan_safe:
  "nulAt z b \<Longrightarrow> ptr \<le> z \<Longrightarrow>
     ok {} (propertyName_scan ptr b) (\<lambda>(r, b'). nulAt z b' \<and> below z r)"
  unfolding propertyName_scan_def
  by (auto simp: nulAt_step intro!: safe_calls split: ptr.splits dest!: goBlank_adv)


lemma isEndOfPrimitive_NUL [simp]: "\<not> isEndOfPrimitive NUL"
  by (simp add: isEndOfPrimitive_iff)

lemma primitiveValue_scan_safe:
  "nulAt z b \<Longrightarrow> ptr \<le> z \<Longrightarrow> NUL \<notin> set val \<Longrightarrow>
     ok {} (primitiveValue_scan ptr val b) (\<lambda>(r, b'). nulAt z b' \<and> below z r)"
  unfolding primitiveValue_scan_def
  by (auto simp: nulAt_def isEndOfPrimitive_not intro!: safe_calls split: ptr.splits)

lemma isdigit_NUL [simp]: "\<not> isdigit NUL"
  by (simp add: isdigit_def)

lemma nul_steps:
  assumes "nulAt z b" "ptr \<le> z"
  shows "b ! ptr \<noteq> NUL \<longrightarrow> Suc ptr \<le> z"
    and "b ! ptr \<noteq> NUL \<longrightarrow> b ! Suc ptr \<noteq> NUL \<longrightarrow> Suc (Suc ptr) \<le> z"
    and "b ! ptr \<noteq> NUL \<longrightarrow> b ! Suc ptr \<noteq> NUL \<longrightarrow> b ! Suc (Suc ptr) \<noteq> NUL \<longrightarrow>
           Suc (Suc (Suc ptr)) \<le> z"
  using assms nulAt_step [of z b] by auto

lemma expValue_safe:
  assumes "nulAt z b" "ptr \<le> z"
  shows "ok {} (expValue ptr b) (below z)"
  using assms nul_steps [OF assms]
  unfolding expValue_def Let_def
  by (auto simp: isdigit_not_NUL nulAt_def intro!: safe_calls)

lemma fraqValue_safe:
  assumes "nulAt z b" "ptr \<le> z"
  shows "ok {} (fraqValue ptr b) (below z)"
  using assms nul_steps [OF assms]
  unfolding fraqValue_def
  by (auto simp: isdigit_not_NUL nulAt_def intro!: safe_calls split: ptr.splits)

lemma ok_case_ptr_id:
  "ok E m (below z) \<Longrightarrow>
   ok E (thenDo m (\<lambda>r. case r of NULL \<Rightarrow> Inr NULL | Ptr p \<Rightarrow> Inr (Ptr p))) (below z)"
  by (cases m) (auto split: ptr.splits)

lemma numValue_int_safe:
  assumes "nulAt z b" "ptr \<le> z"
  shows "ok {} (numValue_int ptr b) (below z)"
proof -
  define p1 where "p1 = (if b ! ptr = CHR ''-'' then ptr + 1 else ptr)"
  have p1: "p1 \<le> z"
    using nul_steps(1) [OF assms] assms(2) by (auto simp: p1_def)
  from assms p1 have len: "ptr < length b" "p1 < length b"
    by (auto simp: nulAt_def)
  have next1: "Suc p1 \<le> z \<and> Suc p1 < length b" if "isdigit (b ! p1)"
    using nul_steps(1) [OF assms(1) p1] that assms(1) by (auto simp: nulAt_def isdigit_not_NUL)
  have body: "ok {} (thenDo (rd b p1)
       (\<lambda>c1. if \<not> isdigit c1 then Inr NULL
             else if c1 \<noteq> CHR ''0'' then
               thenDo (goNum p1 b) (\<lambda>r. case r of NULL \<Rightarrow> Inr NULL | Ptr p \<Rightarrow> Inr (Ptr p))
             else thenDo (rd b (p1 + 1))
                    (\<lambda>c2. if isdigit c2 then Inr NULL else Inr (Ptr (p1 + 1))))) (below z)"
  proof (cases "isdigit (b ! p1)")
    case False
    with len show ?thesis by simp
  next
    case True
    note n = next1 [OF True]
    show ?thesis
    proof (cases "b ! p1 = CHR ''0''")
      case True
      with \<open>isdigit (b ! p1)\<close> len n show ?thesis by simp
    next
      case False
      have "ok {} (thenDo (goNum p1 b) (\<lambda>r. case r of NULL \<Rightarrow> Inr NULL | Ptr p \<Rightarrow> Inr (Ptr p)))
              (below z)"
        by (rule ok_case_ptr_id) (rule goNum_safe [OF assms(1) p1])
      with False \<open>isdigit (b ! p1)\<close> len show ?thesis by (simp add: rd_def del: ok_thenDo)
    qed
  qed
  have "numValue_int ptr b = thenDo (rd b p1)
       (\<lambda>c1. if \<not> isdigit c1 then Inr NULL
             else if c1 \<noteq> CHR ''0'' then
               thenDo (goNum p1 b) (\<lambda>r. case r of NULL \<Rightarrow> Inr NULL | Ptr p \<Rightarrow> Inr (Ptr p))
             else thenDo (rd b (p1 + 1))
                    (\<lambda>c2. if isdigit c2 then Inr NULL else Inr (Ptr (p1 + 1))))"
    using len by (simp add: numValue_int_def Let_def p1_def rd_def)
  with body show ?thesis by simp
qed

lemma strcmp_safe:
  "xs \<noteq> [] \<Longrightarrow> last xs = NUL \<Longrightarrow> NUL \<in> set ys \<Longrightarrow> ok {} (strcmp xs ys) (\<lambda>d. True)"
proof (induction xs ys rule: strcmp.induct)
  case (1 a as b bs)
  then show ?case by (cases "as = []") auto
qed auto

lemma NUL_in_drop:
  assumes "val \<le> ptr" "ptr < length b" "b ! ptr = NUL"
  shows "NUL \<in> set (drop val b)"
proof -
  from assms have "ptr - val < length (drop val b)" by simp
  then have "drop val b ! (ptr - val) \<in> set (drop val b)" by (rule nth_mem)
  with assms show ?thesis by simp
qed

lemma numValue_range_safe:
  assumes "nulAt z b" "ptr \<le> z" "val \<le> ptr"
  shows "ok {} (numValue_range val ptr b)
           (\<lambda>(r, b'). nulAt z b' \<and> below z r \<and> (\<forall>p. r = Ptr p \<longrightarrow> p = ptr \<and> b' = b))"
proof -
  from assms have len: "ptr < length b" "val < length b" by (auto simp: nulAt_def)
  have n: "NUL \<in> set (drop val (b[ptr := NUL]))"
    using assms(3) len by (intro NUL_in_drop [of val ptr]) auto
  have s: "ok {} (strcmp (c_str lit) (drop val (b[ptr := NUL]))) (\<lambda>d. True)" for lit
    using n by (intro strcmp_safe) (auto simp: c_str_def)
  have w: "nulAt z (b[ptr := NUL])"
    using assms(1) len by (intro nulAt_update) auto
  show ?thesis
    using len assms(1,2) w
    apply (simp add: numValue_range_def Let_def)
    apply (intro conjI impI ok_mono [OF s])
    apply auto
    done
qed

definition safe_ret :: "nat \<Rightarrow> ptr \<times> state \<Rightarrow> bool" where
  "safe_ret z = (\<lambda>(r, st'). nulAt z (buf st') \<and> below z r)"

lemma safe_ret_simp [simp]: "safe_ret z (r, st') \<longleftrightarrow> nulAt z (buf st') \<and> below z r"
  by (simp add: safe_ret_def)

definition safe_step :: "nat \<Rightarrow> step \<Rightarrow> bool" where
  "safe_step z s =
     (case s of
        Return r st' \<Rightarrow> nulAt z (buf st') \<and> below z r
      | Continue p ob st' \<Rightarrow> nulAt z (buf st') \<and> p \<le> z)"

lemma safe_step_simps [simp]:
  "safe_step z (Return r st') \<longleftrightarrow> nulAt z (buf st') \<and> below z r"
  "safe_step z (Continue p ob st') \<longleftrightarrow> nulAt z (buf st') \<and> p \<le> z"
  by (simp_all add: safe_step_def)

lemmas safe_calls2 =
  safe_calls ok_mono [OF propertyName_scan_safe] ok_mono [OF primitiveValue_scan_safe]
  ok_mono [OF expValue_safe] ok_mono [OF fraqValue_safe] ok_mono [OF numValue_int_safe]
  ok_mono [OF numValue_range_safe]

lemma propertyName_safe:
  "nulAt z (buf st) \<Longrightarrow> ptr \<le> z \<Longrightarrow> buf st ! ptr \<noteq> NUL \<Longrightarrow>
     ok {PoolOverrun, NullDeref} (propertyName ptr property st) (safe_ret z)"
  unfolding propertyName_def
  by (auto simp: nulAt_step intro!: safe_calls2)

lemma textValue_safe:
  "nulAt z (buf st) \<Longrightarrow> ptr \<le> z \<Longrightarrow> buf st ! ptr \<noteq> NUL \<Longrightarrow>
     ok {PoolOverrun, NullDeref} (textValue ptr property st) (safe_ret z)"
  unfolding textValue_def
  by (auto simp: nulAt_step intro!: safe_calls2 split: ptr.splits)

lemma primitiveValue_safe:
  "nulAt z (buf st) \<Longrightarrow> ptr \<le> z \<Longrightarrow> NUL \<notin> set val \<Longrightarrow>
     ok {PoolOverrun, NullDeref} (primitiveValue ptr property val ty st) (safe_ret z)"
  unfolding primitiveValue_def
  by (auto intro!: safe_calls2 split: ptr.splits)

lemma numValue_fraq_safe:
  assumes "nulAt z (buf st)" "ptr \<le> z"
  shows "ok {PoolOverrun, NullDeref} (numValue_fraq ptr property st) (safe_ret z)"
  using assms nul_steps(1) [OF assms]
  unfolding numValue_fraq_def
  by (auto simp: nulAt_def intro!: safe_calls2 split: ptr.splits)

lemma numValue_exp_safe:
  assumes "nulAt z (buf st)" "ptr \<le> z"
  shows "ok {PoolOverrun, NullDeref} (numValue_exp ptr property st) (safe_ret z)"
  using assms nul_steps(1) [OF assms]
  unfolding numValue_exp_def
  by (auto simp: nulAt_def intro!: safe_calls2 split: ptr.splits)

lemmas safe_calls3 =
  safe_calls2 ok_mono [OF numValue_fraq_safe] ok_mono [OF numValue_exp_safe]

lemma numValue_scan_safe:
  assumes "nulAt z (buf st)" "ptr \<le> z"
  shows "ok {PoolOverrun, NullDeref} (numValue_scan ptr property st) (safe_ret z)"
  using assms
  unfolding numValue_scan_def
  by (auto simp: nulAt_def intro!: safe_calls3 [where z = z] split: ptr.splits)

lemma numValue_scan_Ptr:
  assumes "numValue_scan ptr property st = Inr (Ptr e, st')"
  shows "\<exists>ty. st' = setType property ty st \<and> ptr < e \<and> e < length (buf st) \<and>
           isEndOfPrimitive (buf st ! e) \<and> property < length (mem st)"
  using numValue_scan_sound [OF assms] by blast

lemma setType_mem [simp]:
  "property < length (mem st) \<Longrightarrow>
     mem (setType property ty st) ! property = (mem st ! property)\<lparr>type := ty\<rparr>"
  by (simp add: setType_def)

lemma numValue_safe:
  assumes z: "nulAt z (buf st)" "ptr \<le> z"
    and v: "\<forall>v. u_value (mem st ! property) = Ptr v \<longrightarrow> v \<le> ptr"
  shows "ok {PoolOverrun, NullDeref} (numValue ptr property st) (safe_ret z)"
proof -
  note S = numValue_scan_safe [OF z, of property]
  show ?thesis
  proof (cases "numValue_scan ptr property st")
    case (Inl e)
    with S show ?thesis by (simp add: numValue_def)
  next
    case (Inr x)
    obtain r st1 where x: "x = (r, st1)" by (cases x)
    show ?thesis
    proof (cases r)
      case NULL
      with S Inr x show ?thesis by (simp add: numValue_def)
    next
      case (Ptr e)
      from numValue_scan_Ptr [OF Inr [unfolded x Ptr]] obtain ty where
        st1: "st1 = setType property ty st" and e: "ptr < e" "e < length (buf st)"
          "isEndOfPrimitive (buf st ! e)" and pr: "property < length (mem st)"
        by blast
      from S Inr x Ptr have ez: "e \<le> z" by simp
      from e have ne: "buf st ! e \<noteq> NUL" by auto
      have r: "ok {} (numValue_range val e (buf st))
           (\<lambda>(r, b'). nulAt z b' \<and> below z r \<and> (\<forall>p. r = Ptr p \<longrightarrow> p = e \<and> b' = buf st))"
        if "u_value (mem st ! property) = Ptr val" for val
        using v that e by (intro numValue_range_safe z ez) auto
      have t: "ok {} (setToNull e (buf st)) (\<lambda>(r, b'). nulAt z b' \<and> below z r)"
        by (rule setToNull_safe [OF z(1) ez ne])
      show ?thesis
        using Inr x Ptr pr z
        apply (simp add: numValue_def st1)
        apply (intro conjI impI)
         apply (clarsimp split: ptr.splits)
         apply (rule ok_mono [OF r], assumption)
          apply (auto split: ptr.splits intro!: ok_mono [OF t])
        done
    qed
  qed
qed


lemma add_safe:
  "ok {PoolOverrun, NullDeref} (add obj property st) (\<lambda>st'. buf st' = buf st)"
  unfolding add_def by (auto split: ptr.splits)

lemma afterValue_safe:
  "ok E m (safe_ret z) \<Longrightarrow> ok E (afterValue obj m) (safe_step z)"
  unfolding afterValue_def by (cases m) (auto split: ptr.splits)

lemma objValue_value_safe:
  assumes z: "nulAt z (buf st)" "ptr \<le> z"
  shows "ok {PoolOverrun, NullDeref} (objValue_value ptr obj property st) (safe_step z)"
proof -
  have len: "ptr < length (buf st)" using z by (auto simp: nulAt_def)
  note n = nul_steps(1) [OF z]
  have val: "ok {PoolOverrun, NullDeref}
     (thenDo (rd (buf st2) ptr) (\<lambda>c.
       if c = CHR ''{'' then
         thenDo (modNode property
                   (\<lambda>n. n\<lparr>type := JSON_OBJ, u_c_child := NULL, sibling := Ptr obj\<rparr>) st2)
           (\<lambda>st3. Inr (Continue (ptr + 1) property st3))
       else if c = CHR ''['' then
         thenDo (modNode property
                   (\<lambda>n. n\<lparr>type := JSON_ARRAY, u_c_child := NULL, sibling := Ptr obj\<rparr>) st2)
           (\<lambda>st3. Inr (Continue (ptr + 1) property st3))
       else if c = DQUOTE then afterValue obj (textValue ptr property st2)
       else if c = CHR ''t'' then afterValue obj (trueValue ptr property st2)
       else if c = CHR ''f'' then afterValue obj (falseValue ptr property st2)
       else if c = CHR ''n'' then afterValue obj (nullValue ptr property st2)
       else afterValue obj (numValue ptr property st2))) (safe_step z)"
    if b: "buf st2 = buf st" and u: "u_value (mem st2 ! property) = Ptr ptr" for st2
  proof -
    from z b have z2: "nulAt z (buf st2)" by simp
    have "ok {PoolOverrun, NullDeref} (afterValue obj (textValue ptr property st2)) (safe_step z)"
      if "buf st ! ptr = DQUOTE"
      using that b by (intro afterValue_safe textValue_safe z2 z) simp
    moreover have "ok {PoolOverrun, NullDeref}
        (afterValue obj (primitiveValue ptr property val ty st2)) (safe_step z)"
      if "NUL \<notin> set val" for val ty
      using that by (intro afterValue_safe primitiveValue_safe z2 z)
    moreover have "ok {PoolOverrun, NullDeref} (afterValue obj (numValue ptr property st2))
        (safe_step z)"
      using u by (intro afterValue_safe numValue_safe z2 z) simp
    ultimately show ?thesis
      using len n z b
      by (simp add: trueValue_def falseValue_def nullValue_def del: ok_thenDo add: rd_def)
         (auto)
  qed
  show ?thesis
    unfolding objValue_value_def
    apply (rule ok_thenDo [THEN iffD2])
    apply (rule ok_mono [OF add_safe])
     apply (simp_all del: ok_thenDo)
    apply (subst ok_thenDo)
    apply (simp only: ok_modNode split: if_split)
    apply (intro conjI impI val)
      apply simp_all
    done
qed


lemma objValue_member_safe:
  assumes z: "nulAt z (buf st)" "ptr \<le> z" and c: "c = buf st ! ptr"
  shows "ok {PoolOverrun, NullDeref} (objValue_member ptr c obj st) (safe_step z)"
proof -
  have v: "ok {PoolOverrun, NullDeref} (objValue_value p obj property st2) (safe_step z)"
    if "nulAt z (buf st2)" "p \<le> z" for p property st2
    using that by (rule objValue_value_safe)
  have n: "ok {PoolOverrun, NullDeref} (propertyName ptr property st1) (safe_ret z)"
    if "buf st1 = buf st" "c = DQUOTE" for property st1
    using that z c by (intro propertyName_safe) auto
  show ?thesis
    unfolding objValue_member_def poolAlloc_def
    using z
    by (auto intro!: ok_mono [OF n] v split: ptr.splits)
qed

lemma goBlank_Ptr_notNUL: "goBlank str b = Inr (Ptr p) \<Longrightarrow> b ! p \<noteq> NUL \<and> p < length b \<and> str \<le> p"
  unfolding goBlank_def by (auto dest: goWhile_Ptr)

lemma objValue_step_safe:
  assumes z: "nulAt z (buf st)" "ptr \<le> z"
  shows "ok {PoolOverrun, NullDeref} (objValue_step ptr obj st) (safe_step z)"
proof -
  have m: "ok {PoolOverrun, NullDeref} (objValue_member p c obj st) (safe_step z)"
    if "p \<le> z" "c = buf st ! p" for p c
    using z(1) that by (rule objValue_member_safe)
  have w: "nulAt z ((buf st)[p := NUL])" if "p < length (buf st)" for p
    using z(1) that by (intro nulAt_update) auto
  have n: "Suc p \<le> z" if "p \<le> z" "buf st ! p \<noteq> NUL" for p
    using nulAt_step [OF z(1) that] .
  show ?thesis
    unfolding objValue_step_def Let_def
    using z
    by (auto intro!: ok_mono [OF goBlank_safe [where z = z]] m w n
             dest!: goBlank_Ptr_notNUL split: ptr.splits)
qed

lemma objValue_loop_safe:
  "nulAt z (buf st) \<Longrightarrow> ptr \<le> z \<Longrightarrow>
     ok {PoolOverrun, NullDeref} (objValue_loop ptr obj st) (safe_ret z)"
proof (induction ptr obj st rule: objValue_loop.induct)
  case (1 ptr obj st)
  note S = objValue_step_safe [OF "1.prems", of obj]
  show ?case
  proof (cases "objValue_step ptr obj st")
    case (Inl e)
    with S show ?thesis by (subst objValue_loop.simps) simp
  next
    case (Inr s)
    show ?thesis
    proof (cases s)
      case (Return r st')
      with S Inr show ?thesis by (subst objValue_loop.simps) simp
    next
      case (Continue p ob st')
      with S Inr have "nulAt z (buf st')" "p \<le> z" by simp_all
      from "1.IH" [OF Inr Continue this] Inr Continue show ?thesis
        by (subst objValue_loop.simps) simp
    qed
  qed
qed

lemma objValue_safe:
  assumes "nulAt z (buf st)" "ptr \<le> z" "buf st ! ptr \<noteq> NUL"
  shows "ok {PoolOverrun, NullDeref} (objValue ptr obj st) (safe_ret z)"
  unfolding objValue_def
  using assms nulAt_step [OF assms]
  by (auto simp: nulAt_def intro!: ok_mono [OF objValue_loop_safe [where z = z]])

lemma json_createWithPool_safe:
  assumes "nulAt z (buf st)" "str \<le> z"
  shows "ok {PoolOverrun, NullDeref} (json_createWithPool str st) (\<lambda>(r, st'). nulAt z (buf st'))"
  unfolding json_createWithPool_def poolInit_def
  using assms
  by (auto intro!: ok_mono [OF goBlank_safe [where z = z]] ok_mono [OF objValue_safe [where z = z]]
           dest!: goBlank_Ptr_notNUL split: ptr.splits)

lemma json_create_safe:
  assumes "nulAt z str"
  shows "ok {PoolOverrun, NullDeref} (json_create str m q) (\<lambda>(r, st'). nulAt z (buf st'))"
  unfolding json_create_def using assms by (intro json_createWithPool_safe) simp_all

text \<open>
  Claim C10: parsing terminates on every NUL-terminated buffer, with every pool. The loop of
  \<^verbatim>\<open>objValue\<close> is the total function \<open>objValue_loop\<close>, whose termination proof rests on
  \<open>objValue_step_adv\<close>. Here, for a buffer with a NUL at index \<open>z\<close> and a scan position at or
  before \<open>z\<close>: one pass of the loop never reads or writes outside the buffer; when it goes
  round again the position has strictly advanced and is still at or before \<open>z\<close>, so the
  distance \<open>z - ptr\<close> has decreased; when it returns, the pointer is null or at or before
  \<open>z\<close>; and the NUL at \<open>z\<close> stays. The whole parse, on any node array and any \<open>qty\<close>, never
  reads or writes outside the buffer.
\<close>

theorem C10_scan_terminates_in_buffer:
  "(nulAt z (buf st) \<and> ptr \<le> z \<longrightarrow>
      objValue_step ptr obj st \<noteq> Inl BufferOverrun \<and>
      (\<forall>p' obj' st'. objValue_step ptr obj st = Inr (Continue p' obj' st') \<longrightarrow>
         ptr < p' \<and> p' \<le> z \<and> z - p' < z - ptr \<and> nulAt z (buf st')) \<and>
      (\<forall>r st'. objValue_step ptr obj st = Inr (Return r st') \<longrightarrow>
         below z r \<and> nulAt z (buf st'))) \<and>
   (nulAt z str \<longrightarrow>
      json_create str m q \<noteq> Inl BufferOverrun \<and>
      (\<forall>r st'. json_create str m q = Inr (r, st') \<longrightarrow> nulAt z (buf st')))"
proof (intro conjI impI allI)
  assume a: "nulAt z (buf st) \<and> ptr \<le> z"
  then have S: "ok {PoolOverrun, NullDeref} (objValue_step ptr obj st) (safe_step z)"
    by (intro objValue_step_safe) simp_all
  then show "objValue_step ptr obj st \<noteq> Inl BufferOverrun"
    by (auto simp: ok_def split: sum.splits)
  {
    fix p' obj' st'
    assume c: "objValue_step ptr obj st = Inr (Continue p' obj' st')"
    with S have 1: "nulAt z (buf st')" "p' \<le> z" by simp_all
    from objValue_step_adv [OF c] have 2: "ptr < p'" by simp
    from 1 2 show "ptr < p'" "p' \<le> z" "z - p' < z - ptr" "nulAt z (buf st')" by simp_all
  }
  {
    fix r st'
    assume "objValue_step ptr obj st = Inr (Return r st')"
    with S show "below z r" "nulAt z (buf st')" by simp_all
  }
next
  assume "nulAt z str"
  then have S: "ok {PoolOverrun, NullDeref} (json_create str m q) (\<lambda>(r, st'). nulAt z (buf st'))"
    by (rule json_create_safe)
  then show "json_create str m q \<noteq> Inl BufferOverrun"
    by (auto simp: ok_def split: sum.splits)
  fix r st'
  assume "json_create str m q = Inr (r, st')"
  with S show "nulAt z (buf st')" by simp
qed

text \<open>The text \<^verbatim>\<open>[1]\<close> after the root node has been set up, for the witness of C10.\<close>

definition C10_state :: state where
  "C10_state =
     \<lparr>buf = c_str ''[1]'', mem = [node0\<lparr>type := JSON_ARRAY\<rparr>, node0], qty = 2, nextFree = 1\<rparr>"

definition C10_state' :: state where
  "C10_state' =
     \<lparr>buf = c_str ''[1]'',
      mem = [node0\<lparr>type := JSON_ARRAY, u_c_child := Ptr 1, u_c_last_child := Ptr 1\<rparr>,
             node0\<lparr>u_value := Ptr 1, type := JSON_INTEGER\<rparr>],
      qty = 2, nextFree = 2\<rparr>"

theorem C10_scan_terminates_in_buffer_witness:
  "nulAt 3 (buf C10_state) \<and>
   objValue_step 1 0 C10_state = Inr (Continue 2 0 C10_state') \<and>
   (1::nat) < 2 \<and> (2::nat) \<le> 3 \<and> nulAt 3 (buf C10_state') \<and>
   nulAt 3 (c_str ''[1]'') \<and>
   json_create (c_str ''[1]'') [node0, node0] 2 \<noteq> Inl BufferOverrun"
  using C10_scan_terminates_in_buffer [of 3 C10_state 1 0 "c_str ''[1]''" "[node0, node0]" 2]
  by (simp add: C10_state_def C10_state'_def nulAt_def node0_def eval_simps word_le_nat_alt)

subsection \<open>The character after a primitive (claim C6)\<close>

lemma checkStr_Ptr:
  "checkStr ptr val b = Inr (Ptr p) \<Longrightarrow>
     p = ptr + length val \<and> (val \<noteq> [] \<longrightarrow> p \<le> length b) \<and> span b ptr p = val"
proof (induction val arbitrary: ptr)
  case Nil
  then show ?case by simp
next
  case (Cons c val)
  from Cons.prems have c: "ptr < length b" "b ! ptr = c"
    and r: "checkStr (ptr + 1) val b = Inr (Ptr p)"
    by (auto simp: rd_Inr_iff split: sum.splits if_splits)
  from Cons.IH [OF r] have p: "p = Suc ptr + length val" "span b (Suc ptr) p = val"
    and l: "val \<noteq> [] \<longrightarrow> p \<le> length b" by auto
  from p(1) c l have le: "p \<le> length b" by (cases "val = []") auto
  with p c show ?case by (simp add: span_Cons)
qed

lemma checkStr_match:
  "span b ptr (ptr + length val) = val \<Longrightarrow> ptr + length val \<le> length b \<Longrightarrow>
     checkStr ptr val b = Inr (Ptr (ptr + length val))"
proof (induction val arbitrary: ptr)
  case Nil
  then show ?case by simp
next
  case (Cons c val)
  from Cons.prems have "span b ptr (Suc ptr + length val) = b ! ptr # span b (Suc ptr) (Suc ptr + length val)"
    by (intro span_Cons) auto
  with Cons.prems have c: "b ! ptr = c" and s: "span b (Suc ptr) (Suc ptr + length val) = val"
    by auto
  from Cons.IH [OF s] Cons.prems c show ?case by (simp add: rd_def)
qed

lemma primitiveValue_accepts:
  assumes "primitiveValue ptr property val ty st = Inr (Ptr p, st')"
  shows "span (buf st) ptr (ptr + length val) = val \<and> ptr + length val < length (buf st) \<and>
         isEndOfPrimitive (buf st ! (ptr + length val))"
proof -
  from assms obtain p1 where c: "checkStr ptr val (buf st) = Inr (Ptr p1)"
    and e: "p1 < length (buf st)" "isEndOfPrimitive (buf st ! p1)"
    by (auto simp: primitiveValue_def primitiveValue_scan_def onBuf_def thenDo_def rd_Inr_iff
             split: sum.splits prod.splits ptr.splits if_splits)
  from checkStr_Ptr [OF c] e show ?thesis by auto
qed

lemma primitiveValue_reject:
  assumes "span (buf st) ptr (ptr + length val) = val" "ptr + length val < length (buf st)"
    and "\<not> isEndOfPrimitive (buf st ! (ptr + length val))"
  shows "primitiveValue ptr property val ty st = Inr (NULL, st)"
  using checkStr_match [OF assms(1)] assms(2,3)
  by (simp add: primitiveValue_def primitiveValue_scan_def onBuf_def rd_def)

lemma numValue_accepts:
  assumes "numValue ptr property st = Inr (Ptr p, st')"
  shows "\<exists>e st1. numValue_scan ptr property st = Inr (Ptr e, st1)"
  using assms
  by (auto simp: numValue_def thenDo_def split: sum.splits prod.splits ptr.splits)

lemma json_number_chars:
  assumes "json_number sg ip fp ep"
  shows "list_all (\<lambda>ch. ch \<in> set ''0123456789.eE+-'') (sg @ ip @ fp @ ep)"
proof -
  have d: "list_all (\<lambda>ch. ch \<in> set ''0123456789.eE+-'') ds" if "list_all isdigit ds" for ds
    using that by (induction ds) (auto simp: isdigit_def)
  from assms have "list_all (\<lambda>ch. ch \<in> set ''0123456789.eE+-'') sg"
    by (auto simp: json_number_def json_sign_def)
  moreover from assms have "list_all (\<lambda>ch. ch \<in> set ''0123456789.eE+-'') ip"
    using d [of ip] by (auto simp: json_number_def json_int_part_def)
  moreover from assms have "list_all (\<lambda>ch. ch \<in> set ''0123456789.eE+-'') fp"
    using d [of "tl fp"] by (cases fp) (auto simp: json_number_def)
  moreover have "list_all (\<lambda>ch. ch \<in> set ''0123456789.eE+-'') ep"
  proof (cases ep)
    case Nil
    then show ?thesis by simp
  next
    case (Cons x r)
    with assms have x: "x = CHR ''e'' \<or> x = CHR ''E''" and r: "json_exp_digits r"
      by (auto simp: json_number_def)
    from r obtain s ds where sds: "r = s # ds" by (cases r) auto
    with r d [of ds] d [of "s # ds"] have "list_all (\<lambda>ch. ch \<in> set ''0123456789.eE+-'') r"
      by (auto split: if_splits)
    with x Cons show ?thesis by auto
  qed
  ultimately show ?thesis by simp
qed


lemma numValue_fraq_safe0:
  assumes "nulAt z (buf st)" "ptr \<le> z" "property < length (mem st)"
  shows "ok {} (numValue_fraq ptr property st)
           (\<lambda>(r, st'). nulAt z (buf st') \<and> below z r \<and> length (mem st') = length (mem st))"
  using assms nul_steps(1) [OF assms(1,2)]
  unfolding numValue_fraq_def
  by (auto simp: nulAt_def intro!: safe_calls2 [where z = z] split: ptr.splits)

lemma numValue_exp_safe0:
  assumes "nulAt z (buf st)" "ptr \<le> z" "property < length (mem st)"
  shows "ok {} (numValue_exp ptr property st)
           (\<lambda>(r, st'). nulAt z (buf st') \<and> below z r \<and> length (mem st') = length (mem st))"
  using assms nul_steps(1) [OF assms(1,2)]
  unfolding numValue_exp_def
  by (auto simp: nulAt_def intro!: safe_calls2 [where z = z] split: ptr.splits)

lemma numValue_scan_safe0:
  assumes "nulAt z (buf st)" "ptr \<le> z" "property < length (mem st)"
  shows "ok {} (numValue_scan ptr property st) (safe_ret z)"
  using assms
  unfolding numValue_scan_def
  by (auto simp: nulAt_def
           intro!: safe_calls2 [where z = z] ok_mono [OF numValue_fraq_safe0 [where z = z]]
                   ok_mono [OF numValue_exp_safe0 [where z = z]]
           split: ptr.splits)

lemma numValue_scan_NUL:
  assumes num: "json_number sg ip fp ep"
    and pr: "property < length (mem st)"
    and b: "buf st = pre @ sg @ ip @ fp @ ep @ NUL # rest"
  shows "\<exists>st1. numValue_scan (length pre) property st = Inr (NULL, st1)"
proof -
  let ?lit = "sg @ ip @ fp @ ep"
  let ?z = "length (pre @ ?lit)"
  have z: "nulAt ?z (buf st)"
    using b nth_append_length [of "pre @ ?lit" NUL rest] by (simp add: nulAt_def)
  have S: "ok {} (numValue_scan (length pre) property st) (safe_ret ?z)"
    using z pr by (intro numValue_scan_safe0) simp_all
  then obtain r st1 where res: "numValue_scan (length pre) property st = Inr (r, st1)"
    and r: "below ?z r"
    by (cases "numValue_scan (length pre) property st") auto
  have "r = NULL"
  proof (cases r)
    case (Ptr e)
    from numValue_scan_sound [OF res [unfolded Ptr]] have e: "length pre < e" "e < length (buf st)"
      "isEndOfPrimitive (buf st ! e)" by auto
    from r Ptr have ez: "e \<le> ?z" by simp
    show ?thesis
    proof (cases "e = ?z")
      case True
      with e(3) z show ?thesis by (simp add: nulAt_def)
    next
      case False
      with ez e(1) have i: "e - length pre < length ?lit" by auto
      from e(1) have "buf st ! e = (pre @ ?lit @ NUL # rest) ! (length pre + (e - length pre))"
        using b by simp
      also have "\<dots> = (?lit @ NUL # rest) ! (e - length pre)"
        by (rule nth_append_length_plus)
      also have "\<dots> = ?lit ! (e - length pre)"
        using i by (simp add: nth_append del: append_assoc)
      finally have "buf st ! e = ?lit ! (e - length pre)" .
      moreover from json_number_chars [OF num] i
      have "?lit ! (e - length pre) \<in> set ''0123456789.eE+-''"
        by (simp add: list_all_length del: append_assoc)
      ultimately have "\<not> isEndOfPrimitive (buf st ! e)"
        by (auto simp: isEndOfPrimitive_iff)
      with e(3) show ?thesis by simp
    qed
  qed
  with res show ?thesis by blast
qed

lemma numValue_reject:
  assumes num: "json_number sg ip fp ep"
    and pr: "property < length (mem st)"
    and b: "buf st = pre @ sg @ ip @ fp @ ep @ c # rest"
    and c: "\<not> isEndOfPrimitive c" "c \<notin> set ''0123456789.eE+-''"
  shows "returned (numValue (length pre) property st) = Inr NULL"
proof (cases "c = NUL")
  case True
  with numValue_scan_NUL [OF num pr, of pre rest] b show ?thesis
    by (auto simp: numValue_def returned_def)
next
  case False
  with c have "\<not> isdigit c" "c \<noteq> CHR ''.''" "c \<noteq> CHR ''e''" "c \<noteq> CHR ''E''"
    by (auto simp: isdigit_def)
  from numValue_scan_run [OF num this(1) False this(2-4) pr b] c(1) show ?thesis
    by (simp add: numValue_def returned_def)
qed


text \<open>
  Claim C6: a scanned primitive is accepted only if the character immediately after it is
  a comma, a blank (space, line feed, carriage return, tab, form feed), \<^verbatim>\<open>}\<close> or \<^verbatim>\<open>]\<close>. For
  \<^verbatim>\<open>primitiveValue\<close> (the literals \<^verbatim>\<open>true\<close>, \<^verbatim>\<open>false\<close> and \<^verbatim>\<open>null\<close>) and for \<^verbatim>\<open>numValue\<close>: when
  the function succeeds, the literal is in the buffer and the character after it is one of
  these eight; when the literal is followed by any other character (one that cannot
  continue the number, for a number), the function returns the null pointer, which ends the
  parse with failure.
\<close>

theorem C6_end_of_primitive:
  "(primitiveValue ptr property val ty st = Inr (Ptr p, st') \<longrightarrow>
      span (buf st) ptr (ptr + length val) = val \<and> ptr + length val < length (buf st) \<and>
      buf st ! (ptr + length val) \<in>
        {CHR '','', CHR '' '', CHR 0x0A, CHR 0x0D, CHR 0x09, CHR 0x0C, CHR ''}'', CHR '']''}) \<and>
   (numValue ptr property st = Inr (Ptr p, st') \<longrightarrow>
      (\<exists>sg ip fp ep.
         json_number sg ip fp ep \<and>
         span (buf st) ptr (ptr + length (sg @ ip @ fp @ ep)) = sg @ ip @ fp @ ep \<and>
         ptr + length (sg @ ip @ fp @ ep) < length (buf st) \<and>
         buf st ! (ptr + length (sg @ ip @ fp @ ep)) \<in>
           {CHR '','', CHR '' '', CHR 0x0A, CHR 0x0D, CHR 0x09, CHR 0x0C, CHR ''}'', CHR '']''})) \<and>
   (span (buf st) ptr (ptr + length val) = val \<and> ptr + length val < length (buf st) \<and>
    buf st ! (ptr + length val) \<notin>
      {CHR '','', CHR '' '', CHR 0x0A, CHR 0x0D, CHR 0x09, CHR 0x0C, CHR ''}'', CHR '']''} \<longrightarrow>
      returned (primitiveValue ptr property val ty st) = Inr NULL) \<and>
   (json_number sg ip fp ep \<and> property < length (mem st) \<and>
    buf st = pre @ sg @ ip @ fp @ ep @ c # rest \<and>
    c \<notin> {CHR '','', CHR '' '', CHR 0x0A, CHR 0x0D, CHR 0x09, CHR 0x0C, CHR ''}'', CHR '']''} \<and>
    c \<notin> set ''0123456789.eE+-'' \<longrightarrow>
      returned (numValue (length pre) property st) = Inr NULL)"
proof -
  have prim_ok: "span (buf st) ptr (ptr + length val) = val \<and>
      ptr + length val < length (buf st) \<and>
      buf st ! (ptr + length val) \<in>
        {CHR '','', CHR '' '', CHR 0x0A, CHR 0x0D, CHR 0x09, CHR 0x0C, CHR ''}'', CHR '']''}"
    if "primitiveValue ptr property val ty st = Inr (Ptr p, st')"
    using primitiveValue_accepts [OF that] by (simp add: isEndOfPrimitive_iff)
  have num_ok: "\<exists>sg ip fp ep.
         json_number sg ip fp ep \<and>
         span (buf st) ptr (ptr + length (sg @ ip @ fp @ ep)) = sg @ ip @ fp @ ep \<and>
         ptr + length (sg @ ip @ fp @ ep) < length (buf st) \<and>
         buf st ! (ptr + length (sg @ ip @ fp @ ep)) \<in>
           {CHR '','', CHR '' '', CHR 0x0A, CHR 0x0D, CHR 0x09, CHR 0x0C, CHR ''}'', CHR '']''}"
    if "numValue ptr property st = Inr (Ptr p, st')"
  proof -
    from numValue_accepts [OF that] obtain e st1 where
      "numValue_scan ptr property st = Inr (Ptr e, st1)" by blast
    from numValue_scan_sound [OF this] obtain sg ip fp ep where
      n: "json_number sg ip fp ep" and s: "span (buf st) ptr e = sg @ ip @ fp @ ep"
      and e: "ptr < e" "e < length (buf st)" "isEndOfPrimitive (buf st ! e)"
      by blast
    from s e have "length (sg @ ip @ fp @ ep) = e - ptr"
      using length_span [of e "buf st" ptr] by simp
    with e have "ptr + length (sg @ ip @ fp @ ep) = e" by simp
    with n s e show ?thesis
      by (intro exI [of _ sg] exI [of _ ip] exI [of _ fp] exI [of _ ep])
         (simp add: isEndOfPrimitive_iff)
  qed
  have prim_bad: "returned (primitiveValue ptr property val ty st) = Inr NULL"
    if "span (buf st) ptr (ptr + length val) = val \<and> ptr + length val < length (buf st) \<and>
      buf st ! (ptr + length val) \<notin>
        {CHR '','', CHR '' '', CHR 0x0A, CHR 0x0D, CHR 0x09, CHR 0x0C, CHR ''}'', CHR '']''}"
  proof -
    from that have "primitiveValue ptr property val ty st = Inr (NULL, st)"
      by (intro primitiveValue_reject) (simp_all add: isEndOfPrimitive_iff)
    then show ?thesis by (simp add: returned_def)
  qed
  have num_bad: "returned (numValue (length pre) property st) = Inr NULL"
    if "json_number sg ip fp ep \<and> property < length (mem st) \<and>
      buf st = pre @ sg @ ip @ fp @ ep @ c # rest \<and>
      c \<notin> {CHR '','', CHR '' '', CHR 0x0A, CHR 0x0D, CHR 0x09, CHR 0x0C, CHR ''}'', CHR '']''} \<and>
      c \<notin> set ''0123456789.eE+-''"
    using that
    by (intro numValue_reject [where c = c and rest = rest]) (simp_all add: isEndOfPrimitive_iff)
  from prim_ok num_ok prim_bad num_bad show ?thesis by blast
qed

text \<open>
  For the witness of C6: a node array whose second node has its value at index 1, under the
  texts \<^verbatim>\<open>[true]\<close>, \<^verbatim>\<open>[truex]\<close> and \<^verbatim>\<open>[12\<close> (cut off by the terminating NUL).
\<close>

definition C6_state :: "string \<Rightarrow> state" where
  "C6_state s =
     \<lparr>buf = c_str s, mem = [node0, node0\<lparr>u_value := Ptr 1\<rparr>], qty = 2, nextFree = 2\<rparr>"

theorem C6_end_of_primitive_witness:
  "primitiveValue 1 1 ''true'' JSON_BOOLEAN (C6_state ''[true]'') =
     Inr (Ptr 5, setType 1 JSON_BOOLEAN (C6_state ''[true]'')) \<and>
   buf (C6_state ''[true]'') ! (1 + length ''true'') = CHR '']'' \<and>
   buf (C6_state ''[truex]'') ! (1 + length ''true'') = CHR ''x'' \<and>
   returned (primitiveValue 1 1 ''true'' JSON_BOOLEAN (C6_state ''[truex]'')) = Inr NULL \<and>
   numValue 1 1 (C6_state ''[12]'') = Inr (Ptr 3, setType 1 JSON_INTEGER (C6_state ''[12]'')) \<and>
   buf (C6_state ''[12x]'') = ''['' @ [] @ ''12'' @ [] @ [] @ CHR ''x'' # c_str '']'' \<and>
   returned (numValue (length ''['') 1 (C6_state ''[12x]'')) = Inr NULL"
  using
    C6_end_of_primitive [of 1 1 "''true''" JSON_BOOLEAN "C6_state ''[true]''" 5
      "setType 1 JSON_BOOLEAN (C6_state ''[true]'')"]
    C6_end_of_primitive [of 1 1 "''true''" JSON_BOOLEAN "C6_state ''[truex]''" 0
      "C6_state ''[truex]''"]
    C6_end_of_primitive [of 1 1 "''true''" JSON_BOOLEAN "C6_state ''[12x]''" 0
      "C6_state ''[12x]''" "[]" "''12''" "[]" "[]" "''[''" "CHR ''x''" "c_str '']''"]
    C6_end_of_primitive [of 1 1 "''true''" JSON_BOOLEAN "C6_state ''[12]''" 3
      "setType 1 JSON_INTEGER (C6_state ''[12]'')"]
  by (simp add: C6_state_def setType_def span_def eval_simps json_number_def json_sign_def
        json_int_part_def node0_def)

subsection \<open>Characters after the root (claim C9)\<close>

definition withTail :: "string \<Rightarrow> state \<Rightarrow> state" where
  "withTail t st = st\<lparr>buf := buf st @ t\<rparr>"

lemma withTail_simps [simp]:
  "buf (withTail t st) = buf st @ t"
  "mem (withTail t st) = mem st"
  "qty (withTail t st) = qty st"
  "nextFree (withTail t st) = nextFree st"
  by (simp_all add: withTail_def)

lemma withTail_upd [simp]:
  "withTail t st\<lparr>mem := x\<rparr> = withTail t (st\<lparr>mem := x\<rparr>)"
  "withTail t st\<lparr>nextFree := y\<rparr> = withTail t (st\<lparr>nextFree := y\<rparr>)"
  "(withTail t st)\<lparr>buf := b @ t\<rparr> = withTail t (st\<lparr>buf := b\<rparr>)"
  by (simp_all add: withTail_def)

lemma rd_tail: "rd b p = Inr c \<Longrightarrow> rd (b @ t) p = Inr c"
  by (auto simp: rd_def nth_append split: if_splits)

lemma rd_tail_lt: "p < length b \<Longrightarrow> rd (b @ t) p = Inr (b ! p)"
  by (auto simp: rd_def nth_append)

lemma wr_tail_lt: "p < length b \<Longrightarrow> wr p c (b @ t) = Inr (b[p := c] @ t)"
  by (auto simp: wr_def list_update_append)

lemmas tail_simps = rd_tail_lt wr_tail_lt rd_Inr_iff wr_Inr_iff nth_append list_update_append

lemma goWhile_tail: "goWhile str cs b = Inr r \<Longrightarrow> goWhile str cs (b @ t) = Inr r"
proof (induction str cs b rule: goWhile.induct)
  case (1 str cs b)
  show ?case
    apply (insert "1.prems")
    apply (subst (asm) goWhile.simps)
    apply (subst goWhile.simps)
    apply (insert "1.IH")
    apply (auto simp: tail_simps split: sum.splits if_splits)
    done
qed

lemma goBlank_tail: "goBlank str b = Inr r \<Longrightarrow> goBlank str (b @ t) = Inr r"
  unfolding goBlank_def by (rule goWhile_tail)

lemma goNum_tail: "goNum str b = Inr r \<Longrightarrow> goNum str (b @ t) = Inr r"
proof (induction str b rule: goNum.induct)
  case (1 str b)
  show ?case
    apply (insert "1.prems")
    apply (subst (asm) goNum.simps)
    apply (subst goNum.simps)
    apply (insert "1.IH")
    apply (auto simp: tail_simps split: sum.splits if_splits)
    done
qed

lemma setToNull_tail:
  "setToNull ch b = Inr (r, b') \<Longrightarrow> setToNull ch (b @ t) = Inr (r, b' @ t)"
  by (auto simp: setToNull_def thenDo_Inr_iff tail_simps split: if_splits)

lemma checkStr_tail: "checkStr ptr val b = Inr r \<Longrightarrow> checkStr ptr val (b @ t) = Inr r"
  by (induction val arbitrary: ptr) (auto simp: tail_simps split: sum.splits if_splits)

lemma getCharFromUnicode_from_tail:
  "getCharFromUnicode_from i str b = Inr r \<Longrightarrow> getCharFromUnicode_from i str (b @ t) = Inr r"
proof (induction i str b rule: getCharFromUnicode_from.induct)
  case (1 i str b)
  show ?case
    apply (insert "1.prems")
    apply (subst (asm) getCharFromUnicode_from.simps)
    apply (subst getCharFromUnicode_from.simps)
    apply (insert "1.IH")
    apply (auto simp: tail_simps split: sum.splits if_splits)
    done
qed

lemma getCharFromUnicode_tail:
  "getCharFromUnicode str b = Inr r \<Longrightarrow> getCharFromUnicode str (b @ t) = Inr r"
  unfolding getCharFromUnicode_def by (rule getCharFromUnicode_from_tail)

lemma okI: "(\<And>x. m = Inr x \<Longrightarrow> Q x) \<Longrightarrow> ok UNIV m Q"
  by (cases m) auto

lemma goBlank_tl: "ok UNIV (goBlank str b) (\<lambda>r. goBlank str (b @ t) = Inr r)"
  by (rule okI) (rule goBlank_tail)

lemma goNum_tl: "ok UNIV (goNum str b) (\<lambda>r. goNum str (b @ t) = Inr r)"
  by (rule okI) (rule goNum_tail)

lemma checkStr_tl: "ok UNIV (checkStr ptr val b) (\<lambda>r. checkStr ptr val (b @ t) = Inr r)"
  by (rule okI) (rule checkStr_tail)

lemma getCharFromUnicode_tl:
  "ok UNIV (getCharFromUnicode str b) (\<lambda>r. getCharFromUnicode str (b @ t) = Inr r)"
  by (rule okI) (rule getCharFromUnicode_tail)

lemma setToNull_tl:
  "ok UNIV (setToNull ch b) (\<lambda>(r, b'). setToNull ch (b @ t) = Inr (r, b' @ t))"
  by (rule okI) (auto dest: setToNull_tail)

lemmas tl_simps = rd_tail_lt wr_tail_lt Let_def

fun pstep_tail :: "string \<Rightarrow> pstep \<Rightarrow> pstep" where
  "pstep_tail t (PReturn r b) = PReturn r (b @ t)"
| "pstep_tail t (PNext h k b) = PNext h k (b @ t)"

lemma parseString_step_tl:
  "ok UNIV (parseString_step head tail b)
     (\<lambda>s. parseString_step head tail (b @ t) = Inr (pstep_tail t s))"
  unfolding parseString_step_def
  by (auto simp: tl_simps intro!: ok_mono [OF getCharFromUnicode_tl [where t = t]])

lemma parseString_loop_tail:
  "parseString_loop head tail b = Inr (r, b') \<Longrightarrow>
     parseString_loop head tail (b @ t) = Inr (r, b' @ t)"
proof (induction head tail b rule: parseString_loop.induct)
  case (1 head tail b)
  show ?case
    apply (insert "1.prems")
    apply (subst (asm) parseString_loop.simps)
    apply (subst parseString_loop.simps)
    apply (insert "1.IH" parseString_step_tl [of head tail b t])
    apply (auto simp: tail_simps split: sum.splits if_splits pstep.splits)
    done
qed

lemma parseString_tl:
  "ok UNIV (parseString str b) (\<lambda>(r, b'). parseString str (b @ t) = Inr (r, b' @ t))"
  unfolding parseString_def by (rule okI) (auto dest: parseString_loop_tail)

lemmas tl_calls =
  ok_mono [OF goBlank_tl] ok_mono [OF goNum_tl] ok_mono [OF checkStr_tl]
  ok_mono [OF setToNull_tl] ok_mono [OF parseString_tl]

lemma propertyName_scan_tl:
  "ok UNIV (propertyName_scan ptr b)
     (\<lambda>(r, b'). propertyName_scan ptr (b @ t) = Inr (r, b' @ t))"
  unfolding propertyName_scan_def
  by (auto simp: tl_simps intro!: tl_calls [where t = t] split: ptr.splits)

lemma primitiveValue_scan_tl:
  "ok UNIV (primitiveValue_scan ptr val b)
     (\<lambda>(r, b'). primitiveValue_scan ptr val (b @ t) = Inr (r, b' @ t))"
  unfolding primitiveValue_scan_def
  by (auto simp: tl_simps intro!: tl_calls [where t = t] split: ptr.splits)

lemma expValue_tl: "ok UNIV (expValue ptr b) (\<lambda>r. expValue ptr (b @ t) = Inr r)"
  unfolding expValue_def
  by (auto simp: tl_simps intro!: tl_calls [where t = t] split: ptr.splits)

lemma fraqValue_tl: "ok UNIV (fraqValue ptr b) (\<lambda>r. fraqValue ptr (b @ t) = Inr r)"
  unfolding fraqValue_def
  by (auto simp: tl_simps intro!: tl_calls [where t = t] split: ptr.splits)

lemma numValue_int_tl: "ok UNIV (numValue_int ptr b) (\<lambda>r. numValue_int ptr (b @ t) = Inr r)"
  unfolding numValue_int_def
  by (auto simp: tl_simps intro!: tl_calls [where t = t] split: ptr.splits)

lemma strcmp_tail: "strcmp a b = Inr r \<Longrightarrow> strcmp a (b @ t) = Inr r"
  by (induction a b rule: strcmp.induct) (auto split: if_splits)

lemma strcmp_tl: "ok UNIV (strcmp a b) (\<lambda>r. strcmp a (b @ t) = Inr r)"
  by (rule okI) (rule strcmp_tail)

lemma numValue_range_tl:
  "ok UNIV (numValue_range val ptr b)
     (\<lambda>(r, b'). numValue_range val ptr (b @ t) = Inr (r, b' @ t))"
  unfolding numValue_range_def
  by (auto simp: tl_simps intro!: ok_mono [OF strcmp_tl [where t = t]])

lemma modNode_withTail:
  "i < length (mem st) \<Longrightarrow>
     modNode i f (withTail t st) = Inr (withTail t (st\<lparr>mem := (mem st)[i := f (mem st ! i)]\<rparr>))"
  by (simp add: modNode_def withTail_def)

lemma getNode_withTail: "i < length (mem st) \<Longrightarrow> getNode (withTail t st) i = Inr (mem st ! i)"
  by (simp add: getNode_def)

lemma wrBuf_withTail:
  "p < length (buf st) \<Longrightarrow>
     wrBuf p c (withTail t st) = Inr (withTail t (st\<lparr>buf := (buf st)[p := c]\<rparr>))"
  by (simp add: wrBuf_def wr_tail_lt withTail_def)

lemma onBuf_tl:
  assumes "ok UNIV (f (buf st)) (\<lambda>(r, b'). f (buf st @ t) = Inr (r, b' @ t))"
  shows "ok UNIV (onBuf f st) (\<lambda>(r, st'). onBuf f (withTail t st) = Inr (r, withTail t st'))"
  using assms by (cases "f (buf st)") (auto simp: onBuf_def)

lemmas st_simps = tl_simps modNode_withTail getNode_withTail wrBuf_withTail

lemma onBuf_calls_tl:
  "ok UNIV (onBuf (propertyName_scan p) st)
     (\<lambda>(r, st'). onBuf (propertyName_scan p) (withTail t st) = Inr (r, withTail t st'))"
  "ok UNIV (onBuf (parseString p) st)
     (\<lambda>(r, st'). onBuf (parseString p) (withTail t st) = Inr (r, withTail t st'))"
  "ok UNIV (onBuf (primitiveValue_scan p val) st)
     (\<lambda>(r, st'). onBuf (primitiveValue_scan p val) (withTail t st) = Inr (r, withTail t st'))"
  "ok UNIV (onBuf (numValue_range v p) st)
     (\<lambda>(r, st'). onBuf (numValue_range v p) (withTail t st) = Inr (r, withTail t st'))"
  "ok UNIV (onBuf (setToNull p) st)
     (\<lambda>(r, st'). onBuf (setToNull p) (withTail t st) = Inr (r, withTail t st'))"
  by (rule onBuf_tl, rule propertyName_scan_tl parseString_tl primitiveValue_scan_tl
        numValue_range_tl setToNull_tl)+

lemmas st_calls =
  tl_calls ok_mono [OF onBuf_calls_tl(1)] ok_mono [OF onBuf_calls_tl(2)]
  ok_mono [OF onBuf_calls_tl(3)] ok_mono [OF onBuf_calls_tl(4)] ok_mono [OF onBuf_calls_tl(5)]
  ok_mono [OF expValue_tl] ok_mono [OF fraqValue_tl] ok_mono [OF numValue_int_tl]

lemma propertyName_tl:
  "ok UNIV (propertyName ptr property st)
     (\<lambda>(r, st'). propertyName ptr property (withTail t st) = Inr (r, withTail t st'))"
  unfolding propertyName_def
  by (auto simp: st_simps simp del: ok_onBuf intro!: st_calls [where t = t])

lemma textValue_tl:
  "ok UNIV (textValue ptr property st)
     (\<lambda>(r, st'). textValue ptr property (withTail t st) = Inr (r, withTail t st'))"
  unfolding textValue_def
  by (auto simp: st_simps simp del: ok_onBuf intro!: st_calls [where t = t] split: ptr.splits)

lemma primitiveValue_tl:
  "ok UNIV (primitiveValue ptr property val ty st)
     (\<lambda>(r, st'). primitiveValue ptr property val ty (withTail t st) = Inr (r, withTail t st'))"
  unfolding primitiveValue_def
  by (auto simp: st_simps simp del: ok_onBuf intro!: st_calls [where t = t] split: ptr.splits)

lemma numValue_fraq_tl:
  "ok UNIV (numValue_fraq ptr property st)
     (\<lambda>(r, st'). numValue_fraq ptr property (withTail t st) = Inr (r, withTail t st'))"
  unfolding numValue_fraq_def
  by (auto simp: st_simps simp del: ok_onBuf intro!: st_calls [where t = t] split: ptr.splits)

lemma numValue_exp_tl:
  "ok UNIV (numValue_exp ptr property st)
     (\<lambda>(r, st'). numValue_exp ptr property (withTail t st) = Inr (r, withTail t st'))"
  unfolding numValue_exp_def
  by (auto simp: st_simps simp del: ok_onBuf intro!: st_calls [where t = t] split: ptr.splits)

lemma numValue_scan_tl:
  "ok UNIV (numValue_scan ptr property st)
     (\<lambda>(r, st'). numValue_scan ptr property (withTail t st) = Inr (r, withTail t st'))"
  unfolding numValue_scan_def
  by (auto simp: st_simps simp del: ok_onBuf
           intro!: st_calls [where t = t] ok_mono [OF numValue_fraq_tl [where t = t]]
             ok_mono [OF numValue_exp_tl [where t = t]]
           split: ptr.splits)

lemma numValue_tl:
  "ok UNIV (numValue ptr property st)
     (\<lambda>(r, st'). numValue ptr property (withTail t st) = Inr (r, withTail t st'))"
  unfolding numValue_def
  by (auto simp: st_simps simp del: ok_onBuf
           intro!: st_calls [where t = t] ok_mono [OF numValue_scan_tl [where t = t]]
           split: ptr.splits)

lemma add_tl:
  "ok UNIV (add obj property st) (\<lambda>st'. add obj property (withTail t st) = Inr (withTail t st'))"
  unfolding add_def
  by (auto simp: st_simps simp del: ok_onBuf split: ptr.splits)

fun step_tail :: "string \<Rightarrow> step \<Rightarrow> step" where
  "step_tail t (Return r st) = Return r (withTail t st)"
| "step_tail t (Continue p ob st) = Continue p ob (withTail t st)"

lemma afterValue_tl:
  assumes "ok UNIV m (\<lambda>(r, st'). m' = Inr (r, withTail t st'))"
  shows "ok UNIV (afterValue obj m) (\<lambda>s. afterValue obj m' = Inr (step_tail t s))"
  using assms by (cases m) (auto simp: afterValue_def split: ptr.splits)

lemma afterValue_calls_tl:
  "ok UNIV (afterValue obj (textValue ptr property st))
     (\<lambda>s. afterValue obj (textValue ptr property (withTail t st)) = Inr (step_tail t s))"
  "ok UNIV (afterValue obj (trueValue ptr property st))
     (\<lambda>s. afterValue obj (trueValue ptr property (withTail t st)) = Inr (step_tail t s))"
  "ok UNIV (afterValue obj (falseValue ptr property st))
     (\<lambda>s. afterValue obj (falseValue ptr property (withTail t st)) = Inr (step_tail t s))"
  "ok UNIV (afterValue obj (nullValue ptr property st))
     (\<lambda>s. afterValue obj (nullValue ptr property (withTail t st)) = Inr (step_tail t s))"
  "ok UNIV (afterValue obj (numValue ptr property st))
     (\<lambda>s. afterValue obj (numValue ptr property (withTail t st)) = Inr (step_tail t s))"
  unfolding trueValue_def falseValue_def nullValue_def
  by (rule afterValue_tl, rule textValue_tl primitiveValue_tl numValue_tl)+

lemma objValue_value_tl:
  "ok UNIV (objValue_value ptr obj property st)
     (\<lambda>s. objValue_value ptr obj property (withTail t st) = Inr (step_tail t s))"
  unfolding objValue_value_def
  by (auto simp: st_simps intro!: ok_mono [OF add_tl [where t = t]] afterValue_calls_tl)

lemma poolAlloc_withTail:
  "poolAlloc (withTail t st) = (case poolAlloc st of (r, s) \<Rightarrow> (r, withTail t s))"
  by (simp add: poolAlloc_def)

lemma objValue_member_tl:
  "ok UNIV (objValue_member ptr c obj st)
     (\<lambda>s. objValue_member ptr c obj (withTail t st) = Inr (step_tail t s))"
  unfolding objValue_member_def
  by (auto simp: st_simps poolAlloc_withTail
           intro!: ok_mono [OF propertyName_tl [where t = t]] objValue_value_tl
           split: ptr.splits prod.splits)

lemma objValue_step_tl:
  "ok UNIV (objValue_step ptr obj st)
     (\<lambda>s. objValue_step ptr obj (withTail t st) = Inr (step_tail t s))"
  unfolding objValue_step_def
  by (auto simp: st_simps
           intro!: st_calls [where t = t] objValue_member_tl
           split: ptr.splits)

lemma objValue_loop_tail:
  "objValue_loop ptr obj st = Inr (r, st') \<Longrightarrow>
     objValue_loop ptr obj (withTail t st) = Inr (r, withTail t st')"
proof (induction ptr obj st rule: objValue_loop.induct)
  case (1 ptr obj st)
  show ?case
    apply (insert "1.prems")
    apply (subst (asm) objValue_loop.simps)
    apply (subst objValue_loop.simps)
    apply (insert "1.IH" objValue_step_tl [of ptr obj st t])
    apply (auto split: sum.splits step.splits)
    done
qed

lemma objValue_tl:
  "ok UNIV (objValue ptr obj st)
     (\<lambda>(r, st'). objValue ptr obj (withTail t st) = Inr (r, withTail t st'))"
  unfolding objValue_def
  by (auto simp: st_simps objValue_loop_tail intro!: okI)

lemma json_createWithPool_tl:
  "ok UNIV (json_createWithPool str st)
     (\<lambda>(r, st'). json_createWithPool str (withTail t st) = Inr (r, withTail t st'))"
  unfolding json_createWithPool_def
  by (auto simp: st_simps poolInit_def
           intro!: st_calls [where t = t] ok_mono [OF objValue_tl [where t = t]]
           split: ptr.splits)

fun step_state :: "step \<Rightarrow> state" where
  "step_state (Return r st) = st"
| "step_state (Continue p ob st) = st"


lemma len_calls:
  "ok UNIV (propertyName ptr property st) (\<lambda>(r, st'). length (buf st') = length (buf st))"
  "ok UNIV (textValue ptr property st) (\<lambda>(r, st'). length (buf st') = length (buf st))"
  "ok UNIV (primitiveValue ptr property val ty st)
     (\<lambda>(r, st'). length (buf st') = length (buf st))"
  "ok UNIV (numValue ptr property st) (\<lambda>(r, st'). length (buf st') = length (buf st))"
  "ok UNIV (add obj property st) (\<lambda>st'. length (buf st') = length (buf st))"
  by (auto intro!: okI dest!: propertyName_len textValue_len primitiveValue_len numValue_len
        add_buf)

lemma objValue_value_len:
  "ok UNIV (objValue_value ptr obj property st)
     (\<lambda>s. length (buf (step_state s)) = length (buf st))"
  unfolding objValue_value_def afterValue_def trueValue_def falseValue_def nullValue_def
  by (auto intro!: ok_mono [OF len_calls(1)] ok_mono [OF len_calls(2)] ok_mono [OF len_calls(3)]
        ok_mono [OF len_calls(4)] ok_mono [OF len_calls(5)] split: ptr.splits)

lemma objValue_member_len:
  "ok UNIV (objValue_member ptr c obj st)
     (\<lambda>s. length (buf (step_state s)) = length (buf st))"
  unfolding objValue_member_def
  by (auto simp: poolAlloc_def intro!: ok_mono [OF len_calls(1)] ok_mono [OF objValue_value_len]
        split: ptr.splits prod.splits if_splits)

lemma objValue_step_len:
  "ok UNIV (objValue_step ptr obj st)
     (\<lambda>s. length (buf (step_state s)) = length (buf st))"
  unfolding objValue_step_def
  by (auto simp: Let_def intro!: okI [of "goBlank _ _"] ok_mono [OF objValue_member_len]
        split: ptr.splits)

lemma objValue_loop_len:
  "objValue_loop ptr obj st = Inr (r, st') \<Longrightarrow> length (buf st') = length (buf st)"
proof (induction ptr obj st rule: objValue_loop.induct)
  case (1 ptr obj st)
  show ?case
    apply (insert "1.prems")
    apply (subst (asm) objValue_loop.simps)
    apply (insert "1.IH" objValue_step_len [of ptr obj st])
    apply (auto split: sum.splits step.splits)
    done
qed

lemma json_createWithPool_len:
  "ok UNIV (json_createWithPool str st) (\<lambda>(r, st'). length (buf st') = length (buf st))"
  unfolding json_createWithPool_def objValue_def
  by (auto simp: poolInit_def intro!: okI [of "goBlank _ _"] okI [of "objValue_loop _ _ _"]
        dest!: objValue_loop_len split: ptr.splits)



text \<open>
  The text \<^verbatim>\<open>{}\<close> parses on its own, so \<^verbatim>\<open>{}garbage\<close> parses to the same tree: \<open>C9_state\<close> is
  the memory after the parse of \<^verbatim>\<open>{}\<close>.
\<close>

definition C9_state :: state where
  "C9_state =
     \<lparr>buf = [CHR ''{'', NUL], mem = [node0\<lparr>type := JSON_OBJ\<rparr>], qty = 1, nextFree = 1\<rparr>"


end
